theory Spec2Isabelle
  imports Main
begin

unbundle bit_operations_syntax

section \<open>Modular arithmetic engine of \<open>sympy/ntheory/residue_ntheory.py\<close>\<close>

text \<open>
  Python integers are unbounded and are modelled by \<open>int\<close>; exponents that the source
  only ever uses as non-negative counters (prime exponents, loop indices) are \<open>nat\<close>.
  Python's \<open>%\<close> and \<open>//\<close> on integers are floor division, as \<open>mod\<close> and \<open>div\<close> on
  \<open>int\<close> are.  Generators are modelled by the list of the values they yield, in the
  order they yield them.
\<close>

subsection \<open>Exceptions and the random source\<close>

text \<open>
  \<open>ValueError\<close>, \<open>ZeroDivisionError\<close>, \<open>TypeError\<close> and \<open>IndexError\<close> are the Python
  exceptions (\<open>TypeError\<close> is what using \<open>None\<close> as a number or a tuple raises).
  \<open>RandomExhausted\<close> is the outcome of a randomized search that has used up all the
  draws supplied to it without terminating, and \<open>NonTermination\<close> the outcome of a
  loop that never exits.
\<close>

datatype error =
  ValueError | ZeroDivisionError | TypeError | IndexError | RandomExhausted | NonTermination

text \<open>
  The process-wide random source is the list of raw draws still to come.  Every function
  that may draw takes this list and returns it without the draws it consumed.
\<close>

type_synonym rng = "int list"

text \<open>\<open>randint(lo, hi)\<close>: one draw, mapped into the closed interval \<open>[lo, hi]\<close>.\<close>

definition randint :: "int \<Rightarrow> int \<Rightarrow> rng \<Rightarrow> error + (int \<times> rng)" where
  "randint lo hi g =
     (if hi < lo then Inl ValueError
      else (case g of
              [] \<Rightarrow> Inl RandomExhausted
            | r # rs \<Rightarrow> Inr (lo + r mod (hi - lo + 1), rs)))"

subsection \<open>Collaborators outside the module\<close>

text \<open>
  Modelled from the spec: \<open>is_prime(n) -> bool\<close> (the primality test is imported from
  \<open>primetest\<close>, which is not part of the sources at hand).
\<close>

definition isprime :: "int \<Rightarrow> bool" where
  "isprime n \<longleftrightarrow> 1 < n \<and> list_all (\<lambda>d. \<not> d dvd n) [2..n - 1]"

text \<open>
  Modelled from the spec: \<open>multiplicity(p, n)\<close>, the p-adic valuation the spec strips in
  the zero case of the square root engine (imported from \<open>factor_\<close>): the greatest \<open>m\<close>
  with \<open>p ^ m\<close> dividing \<open>n\<close>.  The source calls it with a prime \<open>p\<close> and \<open>n \<noteq> 0\<close> only.
\<close>

function multiplicity :: "int \<Rightarrow> int \<Rightarrow> nat" where
  "multiplicity p n =
     (if 1 < p \<and> n \<noteq> 0 \<and> p dvd n then Suc (multiplicity p (n div p)) else 0)"
  by pat_completeness auto
termination
proof (relation "measure (\<lambda>(p, n). nat \<bar>n\<bar>)")
  show "wf (measure (\<lambda>(p::int, n::int). nat \<bar>n\<bar>))" by simp
next
  fix p n :: int
  assume h: "1 < p \<and> n \<noteq> 0 \<and> p dvd n"
  then obtain k where k: "n = p * k" by (auto simp: dvd_def)
  with h have k0: "k \<noteq> 0" by auto
  have "\<bar>k\<bar> * 1 < \<bar>k\<bar> * p" using h k0 by (intro mult_strict_left_mono) auto
  then have "\<bar>k\<bar> < \<bar>p * k\<bar>" using h by (simp add: abs_mult mult.commute)
  moreover have "n div p = k" using h k by simp
  ultimately have "\<bar>n div p\<bar> < \<bar>n\<bar>" using k by simp
  then show "((p, n div p), (p, n)) \<in> measure (\<lambda>(p, n). nat \<bar>n\<bar>)"
    by simp
qed

declare multiplicity.simps [simp del]

text \<open>
  Modelled from the spec: \<open>trailing(n)\<close>, the number of trailing zero bits of \<open>n\<close>
  (imported from \<open>factor_\<close>).
\<close>

definition trailing :: "int \<Rightarrow> nat" where
  "trailing n = multiplicity 2 n"

text \<open>
  Modelled from the spec: \<open>factor(n) -> map<prime, exponent>\<close> whose product reconstructs
  \<open>n\<close> (imported from \<open>factor_\<close>).  The mapping is the association list of the primes
  dividing \<open>n\<close>, in ascending order, which is the order the source iterates over.
\<close>

definition factorint :: "int \<Rightarrow> (int \<times> nat) list" where
  "factorint n = map (\<lambda>p. (p, multiplicity p n)) (filter (\<lambda>p. isprime p \<and> p dvd n) [2..n])"

text \<open>
  Modelled from the spec: \<open>mod_inverse(a, n) -> int\<close>, which fails when \<open>gcd(a, n) \<noteq> 1\<close>
  (\<open>invert\<close> of the \<open>gmpy\<close> layer, which raises \<open>ZeroDivisionError\<close>).  The inverse
  returned is the one in \<open>[0, n)\<close>.
\<close>

definition invert :: "int \<Rightarrow> int \<Rightarrow> error + int" where
  "invert a m =
     (case find (\<lambda>x. (a * x - 1) mod m = 0) [0..m - 1] of
        None \<Rightarrow> Inl ZeroDivisionError
      | Some x \<Rightarrow> Inr x)"

text \<open>
  Modelled from the spec: \<open>legendre(a, p) -> {-1, 0, 1}\<close>, the character testing
  quadratic-residue status modulo a prime \<open>p\<close> (\<open>legendre\<close> of the \<open>gmpy\<close> layer).
\<close>

definition legendre :: "int \<Rightarrow> int \<Rightarrow> int" where
  "legendre a p =
     (if a mod p = 0 then 0
      else if list_ex (\<lambda>x. (x * x - a) mod p = 0) [1..p - 1] then 1 else - 1)"

text \<open>
  Modelled from the spec: \<open>jacobi(a, n) -> {-1, 0, 1}\<close> for an odd positive \<open>n\<close>
  (\<open>jacobi\<close> of the \<open>gmpy\<close> layer): the product of the Legendre symbols of the prime
  factors of \<open>n\<close>, with their multiplicities.
\<close>

definition jacobi :: "int \<Rightarrow> int \<Rightarrow> int" where
  "jacobi a n = prod_list (map (\<lambda>(p, e). legendre a p ^ e) (factorint n))"

text \<open>
  Modelled from the spec: \<open>crt(moduli, residues, check) -> (value, combined_modulus)\<close>,
  merging per-prime-power residues into one residue modulo their product (\<open>crt\<close> of
  \<open>modular\<close> and \<open>gf_crt1\<close>/\<open>gf_crt2\<close> of \<open>galoistools\<close>).  The value is the residue
  in \<open>[0, product)\<close> that agrees with every given residue; there is none when the
  moduli are not coprime and the residues disagree.
\<close>

definition crt :: "int list \<Rightarrow> int list \<Rightarrow> int option" where
  "crt ms rs =
     find (\<lambda>x. list_all (\<lambda>(m, r). (x - r) mod m = 0) (zip ms rs)) [0..prod_list ms - 1]"

subsection \<open>Python built-ins\<close>

text \<open>\<open>pow(a, e, n)\<close> for an exponent \<open>e \<ge> 0\<close>.\<close>

definition pow_mod :: "int \<Rightarrow> nat \<Rightarrow> int \<Rightarrow> int" where
  "pow_mod a e n = a ^ e mod n"

text \<open>
  \<open>pow(a, e, n)\<close> for an integer exponent: a negative exponent takes the power of the
  modular inverse and raises \<open>ValueError\<close> when the base is not invertible.
\<close>

definition pow_mod_int :: "int \<Rightarrow> int \<Rightarrow> int \<Rightarrow> error + int" where
  "pow_mod_int a e n =
     (if n = 0 then Inl ValueError
      else if 0 \<le> e then Inr (pow_mod a (nat e) n)
      else (case invert (a mod \<bar>n\<bar>) \<bar>n\<bar> of
              Inl _ \<Rightarrow> Inl ValueError
            | Inr b \<Rightarrow> Inr (pow_mod b (nat (- e)) n)))"

text \<open>\<open>range(lo, hi, step)\<close> for a positive step.\<close>

definition py_range :: "int \<Rightarrow> int \<Rightarrow> int \<Rightarrow> int list" where
  "py_range lo hi step =
     map (\<lambda>i. lo + int i * step) [0..<nat ((hi - lo + step - 1) div step)]"

text \<open>\<open>k.bit_length()\<close> for \<open>k \<ge> 0\<close>.\<close>

fun bit_length :: "nat \<Rightarrow> nat" where
  "bit_length k = (if k = 0 then 0 else Suc (bit_length (k div 2)))"

declare bit_length.simps [simp del]

subsection \<open>Modular square roots\<close>

text \<open>
  The search \<open>while 1: d = randint(2, p - 1); if jacobi(d, p) == -1: break\<close> of
  \<open>_sqrt_mod_tonelli_shanks\<close>.
\<close>

fun nonresidue_search :: "int \<Rightarrow> rng \<Rightarrow> error + (int \<times> rng)" where
  "nonresidue_search p [] = randint 2 (p - 1) []"
| "nonresidue_search p (r # rs) =
     (case randint 2 (p - 1) (r # rs) of
        Inl e \<Rightarrow> Inl e
      | Inr (d, _) \<Rightarrow> if jacobi d p = - 1 then Inr (d, rs) else nonresidue_search p rs)"

text \<open>One round of the loop \<open>for i in range(s)\<close> of \<open>_sqrt_mod_tonelli_shanks\<close>.\<close>

definition ts_step :: "int \<Rightarrow> int \<Rightarrow> int \<Rightarrow> nat \<Rightarrow> nat \<Rightarrow> nat \<Rightarrow> nat" where
  "ts_step A D p s m i =
     (let adm = A * pow_mod D m p mod p;
          adm = pow_mod adm (2 ^ (s - 1 - i)) p
      in if adm mod p = p - 1 then m + 2 ^ i else m)"

definition sqrt_mod_tonelli_shanks :: "int \<Rightarrow> int \<Rightarrow> rng \<Rightarrow> error + (int \<times> rng)" where
  "sqrt_mod_tonelli_shanks a p g =
     (let s = trailing (p - 1);
          t = p div 2 ^ s
      in case nonresidue_search p g of
           Inl e \<Rightarrow> Inl e
         | Inr (d, g') \<Rightarrow>
             (let A = pow_mod a (nat t) p;
                  D = pow_mod d (nat t) p;
                  m = foldl (ts_step A D p s) 0 [0..<s];
                  x = pow_mod a (nat ((t + 1) div 2)) p * pow_mod D (m div 2) p mod p
              in Inr (x, g')))"

text \<open>The bit lifting \<open>for nx in range(3, k)\<close> of the case \<open>p = 2\<close>.\<close>

definition lift2_step :: "int \<Rightarrow> int \<Rightarrow> nat \<Rightarrow> int" where
  "lift2_step a r nx = (if ((r\<^sup>2 - a) div 2 ^ nx) mod 2 \<noteq> 0 then r + 2 ^ (nx - 1) else r)"

text \<open>
  The Newton iteration \<open>for _ in range(k.bit_length() - 1)\<close>: the state is \<open>(px, res)\<close>,
  and \<open>invert\<close> may raise.
\<close>

fun newton_rounds :: "int \<Rightarrow> nat \<Rightarrow> int \<Rightarrow> int \<Rightarrow> error + (int \<times> int)" where
  "newton_rounds a 0 px res = Inr (px, res)"
| "newton_rounds a (Suc j) px res =
     (let px' = px\<^sup>2 in
      case invert (2 * res) px' of
        Inl e \<Rightarrow> Inl e
      | Inr frinv \<Rightarrow> newton_rounds a j px' ((res - (res\<^sup>2 - a) * frinv) mod px'))"

definition sqrt_mod_prime_power ::
  "int \<Rightarrow> int \<Rightarrow> nat \<Rightarrow> rng \<Rightarrow> error + (int list option \<times> rng)" where
  "sqrt_mod_prime_power a0 p k g =
     (let pk = p ^ k;
          a = a0 mod pk
      in if p = 2 then
           (if a mod 8 \<noteq> 1 then Inr (None, g)
            else if k \<le> 3 then Inr (Some (py_range 1 pk 2), g)
            else (let r = foldl (lift2_step a) 1 [3..<k];
                      h = 2 ^ (k - 1)
                  in Inr (Some (sort [r, pk - r, (r + h) mod pk, (- (r + h)) mod pk]), g)))
         else if jacobi a p \<noteq> 1 then Inr (None, g)
         else
           (case (if p mod 4 = 3 then Inr (pow_mod a (nat ((p + 1) div 4)) p, g)
                  else if p mod 8 = 5 then
                    (let res = pow_mod a (nat ((p + 3) div 8)) p
                     in if pow_mod res 2 p \<noteq> a mod p
                        then Inr (res * pow_mod 2 (nat ((p - 1) div 4)) p mod p, g)
                        else Inr (res, g))
                  else sqrt_mod_tonelli_shanks a p g) of
              Inl e \<Rightarrow> Inl e
            | Inr (res, g') \<Rightarrow>
                (if k > 1 then
                   (case newton_rounds a (bit_length k - 1) p res of
                      Inl e \<Rightarrow> Inl e
                    | Inr (px, res1) \<Rightarrow>
                        (if int k AND (int k - 1) \<noteq> 0 then
                           (case invert (2 * res1) pk of
                              Inl e \<Rightarrow> Inl e
                            | Inr frinv \<Rightarrow>
                                (let res2 = (res1 - (res1\<^sup>2 - a) * frinv) mod pk
                                 in Inr (Some (sort [res2, pk - res2]), g')))
                         else Inr (Some (sort [res1, pk - res1]), g')))
                 else Inr (Some (sort [res, pk - res]), g'))))"

definition sqrt_mod1 :: "int \<Rightarrow> int \<Rightarrow> nat \<Rightarrow> rng \<Rightarrow> error + (int list option \<times> rng)" where
  "sqrt_mod1 a0 p n g =
     (let pn = p ^ n;
          a = a0 mod pn
      in if a = 0 then Inr (Some (py_range 0 pn (p ^ ((n + 1) div 2))), g)
         else (let r = multiplicity p a
               in if r mod 2 = 1 then Inr (None, g)
                  else (case sqrt_mod_prime_power (a div p ^ r) p (n - r) g of
                          Inl e \<Rightarrow> Inl e
                        | Inr (None, g') \<Rightarrow> Inr (None, g')
                        | Inr (Some res, g') \<Rightarrow>
                            (let m = r div 2
                             in Inr (Some (concat (map (\<lambda>rx. py_range (rx * p ^ m) pn (p ^ (n - m))) res)), g')))))"

text \<open>
  The loop \<open>for px, ex in f.items()\<close> of \<open>sqrt_mod_iter\<close>: it returns \<open>None\<close> as soon as
  one prime power has no root (the generator then yields nothing), and otherwise the
  lists \<open>v\<close> and \<open>pv\<close>.
\<close>

fun sqrt_mod_factors ::
  "int \<Rightarrow> (int \<times> nat) list \<Rightarrow> rng \<Rightarrow> error + ((int list list \<times> int list) option \<times> rng)" where
  "sqrt_mod_factors a [] g = Inr (Some ([], []), g)"
| "sqrt_mod_factors a ((px, ex) # f) g =
     (case (if a mod px = 0 then sqrt_mod1 a px ex g else sqrt_mod_prime_power a px ex g) of
        Inl e \<Rightarrow> Inl e
      | Inr (None, g') \<Rightarrow> Inr (None, g')
      | Inr (Some rx, g') \<Rightarrow>
          (if rx = [] then Inr (None, g')
           else (case sqrt_mod_factors a f g' of
                   Inl e \<Rightarrow> Inl e
                 | Inr (None, g'') \<Rightarrow> Inr (None, g'')
                 | Inr (Some (v, pv), g'') \<Rightarrow> Inr (Some (rx # v, px ^ ex # pv), g''))))"

text \<open>The CRT combination of every tuple of \<open>_product(*v)\<close>, in the order of the tuples.\<close>

fun crt_all :: "int list \<Rightarrow> int list list \<Rightarrow> error + int list" where
  "crt_all pv [] = Inr []"
| "crt_all pv (vx # vs) =
     (case crt pv vx of
        None \<Rightarrow> Inl TypeError
      | Some r \<Rightarrow> (case crt_all pv vs of Inl e \<Rightarrow> Inl e | Inr rs \<Rightarrow> Inr (r # rs)))"

text \<open>
  \<open>sqrt_mod_iter(a, p)\<close>, as the list of the values the generator yields.  For \<open>p = 0\<close>
  the factorization of the library is \<open>{0: 1}\<close>, and the source computes \<open>a % 0\<close>.
\<close>

definition sqrt_mod_iter :: "int \<Rightarrow> int \<Rightarrow> rng \<Rightarrow> error + (int list \<times> rng)" where
  "sqrt_mod_iter a0 p0 g =
     (let p = \<bar>p0\<bar> in
      if isprime p then
        (let a = a0 mod p in
         case (if a = 0 then sqrt_mod1 a p 1 g else sqrt_mod_prime_power a p 1 g) of
           Inl e \<Rightarrow> Inl e
         | Inr (None, g') \<Rightarrow> Inr ([], g')
         | Inr (Some res, g') \<Rightarrow> Inr (res, g'))
      else if p = 0 then Inl ZeroDivisionError
      else
        (case sqrt_mod_factors a0 (factorint p) g of
           Inl e \<Rightarrow> Inl e
         | Inr (None, g') \<Rightarrow> Inr ([], g')
         | Inr (Some (v, pv), g') \<Rightarrow>
             (case crt_all pv (product_lists v) of
                Inl e \<Rightarrow> Inl e
              | Inr rs \<Rightarrow> Inr (rs, g'))))"

text \<open>The value a function of the module returns: an integer, a list, or \<open>None\<close>.\<close>

datatype pyval = PInt int | PList "int list" | PNone

definition sqrt_mod :: "int \<Rightarrow> int \<Rightarrow> bool \<Rightarrow> rng \<Rightarrow> error + (pyval \<times> rng)" where
  "sqrt_mod a p0 all_roots g =
     (if all_roots then
        (case sqrt_mod_iter a p0 g of
           Inl e \<Rightarrow> Inl e
         | Inr (rs, g') \<Rightarrow> Inr (PList (sort rs), g'))
      else
        (let p = \<bar>p0\<bar> in
         case sqrt_mod_iter a p g of
           Inl e \<Rightarrow> Inl e
         | Inr ([], g') \<Rightarrow> Inr (PNone, g')
         | Inr (r # it, g') \<Rightarrow>
             (if r > p div 2 then Inr (PInt (p - r), g')
              else if r < p div 2 then Inr (PInt r, g')
              else (case it of
                      [] \<Rightarrow> Inr (PInt r, g')
                    | r' # _ \<Rightarrow>
                        (if r' > p div 2 then Inr (PInt (p - r'), g')
                         else Inr (PInt r', g'))))))"

subsection \<open>Multiplicative order\<close>

text \<open>
  \<open>factors[p] += k\<close> on a \<open>defaultdict(int)\<close>: a new key is appended, so the dictionary
  keeps the order in which its keys were first seen.
\<close>

fun dict_add :: "(int \<times> nat) list \<Rightarrow> int \<Rightarrow> nat \<Rightarrow> (int \<times> nat) list" where
  "dict_add [] p k = [(p, k)]"
| "dict_add ((q, j) # fs) p k =
     (if q = p then (q, j + k) # fs else (q, j) # dict_add fs p k)"

text \<open>The factorization of \<open>totient(n)\<close> that \<open>n_order\<close> accumulates in \<open>factors\<close>.\<close>

definition order_factors :: "int \<Rightarrow> (int \<times> nat) list" where
  "order_factors n =
     foldl (\<lambda>fs (px, kx).
              foldl (\<lambda>fs (py, ky). dict_add fs py ky)
                    (if kx > 1 then dict_add fs px (kx - 1) else fs)
                    (factorint (px - 1)))
           [] (factorint n)"

text \<open>
  The loop \<open>for _ in range(e)\<close> of \<open>n_order\<close> for one prime \<open>p\<close>: divide \<open>order\<close> by \<open>p\<close>
  while \<open>a ** (order // p)\<close> is still 1, at most \<open>e\<close> times.
\<close>

fun strip_prime :: "int \<Rightarrow> int \<Rightarrow> int \<Rightarrow> nat \<Rightarrow> int \<Rightarrow> int" where
  "strip_prime a n p 0 order = order"
| "strip_prime a n p (Suc e) order =
     (if pow_mod a (nat (order div p)) n = 1 then strip_prime a n p e (order div p)
      else order)"

definition n_order :: "int \<Rightarrow> int \<Rightarrow> error + int" where
  "n_order a0 n =
     (if n \<le> 1 then Inl ValueError
      else (let a = a0 mod n in
            if a = 1 then Inr 1
            else if gcd a n \<noteq> 1 then Inl ValueError
            else (let factors = order_factors n;
                      order = foldl (\<lambda>order (px, kx). order * px ^ kx) 1 factors
                  in Inr (foldl (\<lambda>order (p, e). strip_prime a n p e order) order factors))))"

subsection \<open>Primitive roots\<close>

text \<open>
  Modelled from the spec: \<open>perfect_power(q)\<close>, which reduces \<open>q\<close> to its prime-power
  structure (imported from \<open>factor_\<close>): the pair \<open>(b, e)\<close> with \<open>b ^ e = q\<close> and \<open>e > 1\<close>
  as large as possible, or nothing when \<open>q\<close> is not a perfect power.
\<close>

definition perfect_power :: "int \<Rightarrow> (int \<times> nat) option" where
  "perfect_power q =
     (case find (\<lambda>b. 1 < multiplicity b q \<and> b ^ multiplicity b q = q) [2..q - 1] of
        None \<Rightarrow> None
      | Some b \<Rightarrow> Some (b, multiplicity b q))"

definition is_primitive_root :: "int \<Rightarrow> int \<Rightarrow> error + bool" where
  "is_primitive_root a0 p =
     (if p \<le> 1 then Inl ValueError
      else (let a = a0 mod p in
            if gcd a p \<noteq> 1 then Inl ValueError
            else if p \<le> 4 then Inr (a = p - 1)
            else if p mod 2 = 0 \<and> p mod 4 = 0 then Inr False
            else (let q = (if p mod 2 \<noteq> 0 then p else p div 2) in
                  if isprime q then
                    Inr (list_all (\<lambda>prime. pow_mod a (nat ((q - 1) div prime)) p \<noteq> 1)
                           (map fst (factorint (q - 1))))
                  else (case perfect_power q of
                          None \<Rightarrow> Inr False
                        | Some (q', e) \<Rightarrow>
                            if \<not> isprime q' then Inr False
                            else (let group_order = q' ^ (e - 1) * (q' - 1)
                                  in Inr (list_all
                                       (\<lambda>prime. pow_mod a (nat (group_order div prime)) p \<noteq> 1)
                                       (map fst (factorint (q' - 1)) @ [q'])))))))"

text \<open>
  \<open>_primitive_root_prime_iter(p)\<close>: the first value yielded is \<open>g\<close>, the others are the
  powers \<open>g ** k\<close> for the odd \<open>k\<close> coprime to \<open>p - 1\<close>.  When the search
  \<open>for g in range(2, p)\<close> finds nothing, \<open>g\<close> keeps the last value \<open>p - 1\<close> of the range.
\<close>

definition primitive_root_prime_iter :: "int \<Rightarrow> int list" where
  "primitive_root_prime_iter p =
     (if p = 3 then [2]
      else (let g = (if p < 41 then
                       (if p = 23 then 5
                        else if p = 7 \<or> p mod 7 = 3 then 3
                        else 2)
                     else (let v = map (\<lambda>(i, _). (p - 1) div i) (factorint (p - 1)) in
                           case find (\<lambda>g. list_all (\<lambda>pw. pow_mod g (nat pw) p \<noteq> 1) v) [2..p - 1] of
                             Some g \<Rightarrow> g
                           | None \<Rightarrow> p - 1))
            in g # map (\<lambda>k. pow_mod g (nat k) p) (filter (\<lambda>k. gcd (p - 1) k = 1) (py_range 3 p 2))))"

text \<open>
  \<open>_primitive_root_prime_power_iter(p, e)\<close>.  The generator is lazy and
  \<open>pow(g, 2 - p, p2)\<close> may raise, so it is the list of its chunks: one chunk for each
  \<open>g\<close>, which either raises or yields its values.
\<close>

definition primitive_root_prime_power_iter :: "int \<Rightarrow> nat \<Rightarrow> (error + int list) list" where
  "primitive_root_prime_power_iter p e =
     (let p2 = p\<^sup>2 in
      if e = 1 then map (\<lambda>g. Inr [g]) (primitive_root_prime_iter p)
      else map (\<lambda>g. case pow_mod_int g (2 - p) p2 of
                       Inl err \<Rightarrow> Inl err
                     | Inr w \<Rightarrow>
                         (let t = (g - w) mod p2 in
                          Inr (concat (map (\<lambda>k. map (\<lambda>m. g + k + m) (py_range 0 (p ^ e) p2))
                                           (filter (\<lambda>k. k \<noteq> t) (py_range 0 p2 p))))))
               (primitive_root_prime_iter p))"

definition primitive_root_prime_power2_iter :: "int \<Rightarrow> nat \<Rightarrow> (error + int list) list" where
  "primitive_root_prime_power2_iter p e =
     map (\<lambda>c. case c of
                 Inl err \<Rightarrow> Inl err
               | Inr gs \<Rightarrow> Inr (map (\<lambda>g. if g mod 2 = 1 then g else g + p ^ e) gs))
         (primitive_root_prime_power_iter p e)"

text \<open>\<open>next(it)\<close> on such a generator; an exhausted generator raises \<open>StopIteration\<close>,
  which \<open>primitive_root\<close> does not catch.\<close>

fun next_chunked :: "(error + int list) list \<Rightarrow> error + int" where
  "next_chunked [] = Inl ValueError"
| "next_chunked (Inl err # cs) = Inl err"
| "next_chunked (Inr [] # cs) = next_chunked cs"
| "next_chunked (Inr (x # xs) # cs) = Inr x"

text \<open>The first candidate of a list that passes a test which may raise.\<close>

fun first_passing :: "(int \<Rightarrow> error + bool) \<Rightarrow> int list \<Rightarrow> error + int option" where
  "first_passing t [] = Inr None"
| "first_passing t (i # cands) =
     (case t i of
        Inl err \<Rightarrow> Inl err
      | Inr True \<Rightarrow> Inr (Some i)
      | Inr False \<Rightarrow> first_passing t cands)"

lemma factorint_key_le: "(q, e) \<in> set (factorint p) \<Longrightarrow> 2 \<le> q \<and> q \<le> p \<and> e = multiplicity q p"
  by (auto simp: factorint_def)

lemma multiplicity_self: "1 < p \<Longrightarrow> multiplicity p p = 1"
  by (subst multiplicity.simps, subst multiplicity.simps) auto

function primitive_root :: "int \<Rightarrow> bool \<Rightarrow> error + int option" where
  "primitive_root p smallest =
     (if p < 2 then Inl ValueError
      else if p \<le> 4 then Inr (Some (p - 1))
      else if \<not> smallest then
        (if p mod 2 = 0 \<and> p mod 4 = 0 then Inr None
         else (let p_even = (p mod 2 = 0);
                   q = (if \<not> p_even then p else p div 2)
               in case (if isprime q then Some (q, 1) else
                          (case perfect_power q of
                             None \<Rightarrow> None
                           | Some (q', e) \<Rightarrow> if \<not> isprime q' then None else Some (q', e))) of
                    None \<Rightarrow> Inr None
                  | Some (q', e) \<Rightarrow>
                      (case (if p_even then next_chunked (primitive_root_prime_power2_iter q' e)
                             else next_chunked (primitive_root_prime_power_iter q' e)) of
                         Inl err \<Rightarrow> Inl err
                       | Inr r \<Rightarrow> Inr (Some r))))
      else (let f = factorint p in
            if length f > 2 then Inr None
            else if length f = 2 then
              (if (case map_of f 2 of None \<Rightarrow> True | Some e2 \<Rightarrow> e2 > 1) then Inr None
               else (let p1 = (case filter (\<lambda>(p1, e1). p1 \<noteq> 2) f of
                                 (p1, _) # _ \<Rightarrow> p1
                               | [] \<Rightarrow> fst (last f))
                     in case first_passing
                               (\<lambda>i. if i mod p1 = 0 then Inr False else is_primitive_root i p)
                               (py_range 3 (p + 2) 2) of
                          Inl err \<Rightarrow> Inl err
                        | Inr (Some i) \<Rightarrow> Inr (Some i)
                        | Inr None \<Rightarrow> Inr (Some (hd (primitive_root_prime_iter p)))))
            else if map_of f 2 \<noteq> None then
              (if p = 4 then Inr (Some 3) else Inr None)
            else
              (case f of
                 [] \<Rightarrow> Inl IndexError
               | (p1, n) # _ \<Rightarrow>
                   (if n > 1 then
                      (case primitive_root p1 True of
                         Inl err \<Rightarrow> Inl err
                       | Inr None \<Rightarrow> Inl TypeError
                       | Inr (Some g) \<Rightarrow>
                           (case is_primitive_root g (p1\<^sup>2) of
                              Inl err \<Rightarrow> Inl err
                            | Inr True \<Rightarrow> Inr (Some g)
                            | Inr False \<Rightarrow>
                                (case first_passing
                                        (\<lambda>i. if gcd i p = 1 then is_primitive_root i p else Inr False)
                                        (py_range 2 (g + p1 + 1) 1) of
                                   Inl err \<Rightarrow> Inl err
                                 | Inr (Some i) \<Rightarrow> Inr (Some i)
                                 | Inr None \<Rightarrow> Inr (Some (hd (primitive_root_prime_iter p))))))
                    else Inr (Some (hd (primitive_root_prime_iter p)))))))"
  by pat_completeness auto
termination
proof (relation "measure (\<lambda>(p, smallest). nat p)")
  show "wf (measure (\<lambda>(p::int, smallest::bool). nat p))" by simp
next
  fix p :: int and smallest :: bool and f x21 x22 x1 x2
  assume "f = factorint p" "f = x21 # x22" "(x1, x2) = x21" "1 < x2"
  then have "factorint p = (x1, x2) # x22" by simp
  then have m: "(x1, x2) \<in> set (factorint p)" by simp
  then have le: "2 \<le> x1" "x1 \<le> p" "x2 = multiplicity x1 p"
    using factorint_key_le by blast+
  have "x1 \<noteq> p" using \<open>1 < x2\<close> le multiplicity_self [of p] by auto
  then show "((x1, True), (p, smallest)) \<in> measure (\<lambda>(p, smallest). nat p)"
    using le by simp
qed

declare primitive_root.simps [simp del]

subsection \<open>Discrete logarithms\<close>

text \<open>
  The loop \<open>for i in range(order)\<close> of \<open>_discrete_log_trial_mul\<close>: \<open>x\<close> is the current
  power of \<open>b\<close>, \<open>i\<close> its exponent, and the last argument counts the rounds left.
\<close>

fun trial_mul_loop :: "int \<Rightarrow> int \<Rightarrow> int \<Rightarrow> int \<Rightarrow> int \<Rightarrow> nat \<Rightarrow> error + int" where
  "trial_mul_loop n a b x i 0 = Inl ValueError"
| "trial_mul_loop n a b x i (Suc left) =
     (if x = a then Inr i else trial_mul_loop n a b (x * b mod n) (i + 1) left)"

definition discrete_log_trial_mul :: "int \<Rightarrow> int \<Rightarrow> int \<Rightarrow> int option \<Rightarrow> error + int" where
  "discrete_log_trial_mul n a0 b0 order0 =
     (if n = 0 then Inl ZeroDivisionError
      else (let a = a0 mod n;
                b = b0 mod n;
                order = (case order0 of None \<Rightarrow> n | Some order \<Rightarrow> order)
            in trial_mul_loop n a b 1 0 (nat order)))"

text \<open>
  Modelled from the spec: \<open>integer_sqrt(n)\<close> (\<open>sqrt\<close> of the \<open>gmpy\<close> layer), the
  greatest \<open>r\<close> with \<open>r * r \<le> n\<close>.
\<close>

definition isqrt :: "int \<Rightarrow> int" where
  "isqrt n = (case find (\<lambda>r. n < (r + 1) * (r + 1)) [0..n] of Some r \<Rightarrow> r | None \<Rightarrow> 0)"

text \<open>The baby steps: the table \<open>T\<close> and the value of \<open>x\<close> after the loop.\<close>

fun baby_steps :: "int \<Rightarrow> int \<Rightarrow> (int \<rightharpoonup> int) \<Rightarrow> int \<Rightarrow> int \<Rightarrow> nat \<Rightarrow> (int \<rightharpoonup> int)" where
  "baby_steps n b T x i 0 = T"
| "baby_steps n b T x i (Suc left) = baby_steps n b (T(x \<mapsto> i)) (x * b mod n) (i + 1) left"

text \<open>The giant steps.\<close>

fun giant_steps :: "int \<Rightarrow> int \<Rightarrow> int \<Rightarrow> (int \<rightharpoonup> int) \<Rightarrow> int \<Rightarrow> int \<Rightarrow> nat \<Rightarrow> error + int" where
  "giant_steps n z m T x i 0 = Inl ValueError"
| "giant_steps n z m T x i (Suc left) =
     (case T x of
        Some j \<Rightarrow> Inr (i * m + j)
      | None \<Rightarrow> giant_steps n z m T (x * z mod n) (i + 1) left)"

definition discrete_log_shanks_steps :: "int \<Rightarrow> int \<Rightarrow> int \<Rightarrow> int option \<Rightarrow> error + int" where
  "discrete_log_shanks_steps n a0 b0 order0 =
     (if n = 0 then Inl ZeroDivisionError
      else (let a = a0 mod n;
                b = b0 mod n
            in case (case order0 of None \<Rightarrow> n_order b n | Some order \<Rightarrow> Inr order) of
                 Inl err \<Rightarrow> Inl err
               | Inr order \<Rightarrow>
                   (if order < 0 then Inl ValueError
                    else (let m = isqrt order + 1;
                              T = baby_steps n b Map.empty 1 0 (nat m)
                          in case pow_mod_int b (- m) n of
                               Inl err \<Rightarrow> Inl err
                             | Inr z \<Rightarrow> giant_steps n z m T a 0 (nat m)))))"

text \<open>
  One move of the walk of \<open>_discrete_log_pollard_rho\<close> on a triple \<open>(x, a, b)\<close>, with its
  3-way branch on \<open>x % 3\<close>.
\<close>

definition rho_step :: "int \<Rightarrow> int \<Rightarrow> int \<Rightarrow> int \<Rightarrow> int \<times> int \<times> int \<Rightarrow> int \<times> int \<times> int" where
  "rho_step n a b order s =
     (case s of (x, al, be) \<Rightarrow>
        (let c = x mod 3 in
         if c = 0 then (a * x mod n, al, (be + 1) mod order)
         else if c = 1 then (x * x mod n, (al + al) mod order, (be + be) mod order)
         else (b * x mod n, (al + 1) mod order, be)))"

text \<open>
  The loop \<open>for j in range(order)\<close>: the slow walk moves once, the fast walk twice.  The
  result is the logarithm found, or nothing when the attempt ends without one (a
  collision that does not yield the logarithm, or no collision).
\<close>

fun rho_walk ::
  "int \<Rightarrow> int \<Rightarrow> int \<Rightarrow> int \<Rightarrow> int \<times> int \<times> int \<Rightarrow> int \<times> int \<times> int \<Rightarrow> nat \<Rightarrow> int option" where
  "rho_walk n a b order sa sb 0 = None"
| "rho_walk n a b order sa sb (Suc left) =
     (let sa' = rho_step n a b order sa;
          sb' = rho_step n a b order (rho_step n a b order sb)
      in case (sa', sb') of ((xa, aa, ba), (xb, ab, bb)) \<Rightarrow>
           if xa = xb then
             (let r = (ba - bb) mod order in
              case invert r order of
                Inl _ \<Rightarrow> None
              | Inr ri \<Rightarrow>
                  (let e = ri * (ab - aa) mod order in
                   if (pow_mod b (nat e) n - a) mod n = 0 then Some e else None))
           else rho_walk n a b order sa' sb' left)"

text \<open>The loop \<open>for i in range(retries)\<close>, each attempt with two fresh draws.\<close>

fun rho_retries :: "int \<Rightarrow> int \<Rightarrow> int \<Rightarrow> int \<Rightarrow> nat \<Rightarrow> rng \<Rightarrow> error + (int \<times> rng)" where
  "rho_retries n a b order 0 g = Inl ValueError"
| "rho_retries n a b order (Suc left) g =
     (case randint 1 (order - 1) g of
        Inl err \<Rightarrow> Inl err
      | Inr (aa, g1) \<Rightarrow>
          (case randint 1 (order - 1) g1 of
             Inl err \<Rightarrow> Inl err
           | Inr (ba, g2) \<Rightarrow>
               (let xa = pow_mod b (nat aa) n * pow_mod a (nat ba) n mod n;
                    sa = (xa, aa, ba);
                    sb = rho_step n a b order sa
                in case rho_walk n a b order sa sb (nat order) of
                     Some e \<Rightarrow> Inr (e, g2)
                   | None \<Rightarrow> rho_retries n a b order left g2)))"

definition discrete_log_pollard_rho ::
  "int \<Rightarrow> int \<Rightarrow> int \<Rightarrow> int option \<Rightarrow> nat \<Rightarrow> rng \<Rightarrow> error + (int \<times> rng)" where
  "discrete_log_pollard_rho n a0 b0 order0 retries g =
     (if n = 0 then Inl ZeroDivisionError
      else (let a = a0 mod n;
                b = b0 mod n
            in case (case order0 of None \<Rightarrow> n_order b n | Some order \<Rightarrow> Inr order) of
                 Inl err \<Rightarrow> Inl err
               | Inr order \<Rightarrow> rho_retries n a b order retries g))"

text \<open>
  \<open>discrete_log(n, a, b, order, True)\<close>, the call \<open>_discrete_log_pohlig_hellman\<close> makes:
  with \<open>prime_order\<close> set, the dispatch never reaches the Pohlig-Hellman branch.
\<close>

definition discrete_log_prime_order ::
  "int \<Rightarrow> int \<Rightarrow> int \<Rightarrow> int \<Rightarrow> rng \<Rightarrow> error + (int \<times> rng)" where
  "discrete_log_prime_order n a b order g =
     (if order < 1000 then
        (case discrete_log_trial_mul n a b (Some order) of
           Inl err \<Rightarrow> Inl err
         | Inr k \<Rightarrow> Inr (k, g))
      else if order < 1000000000000 then
        (case discrete_log_shanks_steps n a b (Some order) of
           Inl err \<Rightarrow> Inl err
         | Inr k \<Rightarrow> Inr (k, g))
      else discrete_log_pollard_rho n a b (Some order) 10 g)"

text \<open>The loop \<open>for j in range(ri)\<close> for one prime power \<open>pi ** ri\<close> of the order.\<close>

fun ph_digits ::
  "int \<Rightarrow> int \<Rightarrow> int \<Rightarrow> int \<Rightarrow> int \<Rightarrow> nat \<Rightarrow> int \<Rightarrow> nat \<Rightarrow> rng \<Rightarrow> error + (int \<times> rng)" where
  "ph_digits n a b order pi j li 0 g = Inr (li, g)"
| "ph_digits n a b order pi j li (Suc left) g =
     (case pow_mod_int b (- li) n of
        Inl err \<Rightarrow> Inl err
      | Inr w \<Rightarrow>
          (let aj = pow_mod (a * w) (nat (order div pi ^ (j + 1))) n;
               bj = pow_mod b (nat (order div pi)) n
           in case discrete_log_prime_order n aj bj pi g of
                Inl err \<Rightarrow> Inl err
              | Inr (cj, g') \<Rightarrow> ph_digits n a b order pi (j + 1) (li + cj * pi ^ j) left g'))"

text \<open>The loop over the prime powers of the order, which fills the list \<open>l\<close>.\<close>

fun ph_factors ::
  "int \<Rightarrow> int \<Rightarrow> int \<Rightarrow> int \<Rightarrow> (int \<times> nat) list \<Rightarrow> rng \<Rightarrow> error + (int list \<times> rng)" where
  "ph_factors n a b order [] g = Inr ([], g)"
| "ph_factors n a b order ((pi, ri) # f) g =
     (case ph_digits n a b order pi 0 0 ri g of
        Inl err \<Rightarrow> Inl err
      | Inr (li, g') \<Rightarrow>
          (case ph_factors n a b order f g' of
             Inl err \<Rightarrow> Inl err
           | Inr (l, g'') \<Rightarrow> Inr (li # l, g'')))"

definition discrete_log_pohlig_hellman ::
  "int \<Rightarrow> int \<Rightarrow> int \<Rightarrow> int option \<Rightarrow> rng \<Rightarrow> error + (int \<times> rng)" where
  "discrete_log_pohlig_hellman n a0 b0 order0 g =
     (if n = 0 then Inl ZeroDivisionError
      else (let a = a0 mod n;
                b = b0 mod n
            in case (case order0 of None \<Rightarrow> n_order b n | Some order \<Rightarrow> Inr order) of
                 Inl err \<Rightarrow> Inl err
               | Inr order \<Rightarrow>
                   (let f = factorint order in
                    case ph_factors n a b order f g of
                      Inl err \<Rightarrow> Inl err
                    | Inr (l, g') \<Rightarrow>
                        (case crt (map (\<lambda>(pi, ri). pi ^ ri) f) l of
                           None \<Rightarrow> Inl TypeError
                         | Some d \<Rightarrow> Inr (d, g')))))"

definition discrete_log ::
  "int \<Rightarrow> int \<Rightarrow> int \<Rightarrow> int option \<Rightarrow> bool option \<Rightarrow> rng \<Rightarrow> error + (int \<times> rng)" where
  "discrete_log n a b order0 prime_order0 g =
     (case (case order0 of None \<Rightarrow> n_order b n | Some order \<Rightarrow> Inr order) of
        Inl err \<Rightarrow> Inl err
      | Inr order \<Rightarrow>
          (let prime_order = (case prime_order0 of None \<Rightarrow> isprime order | Some po \<Rightarrow> po) in
           if order < 1000 then
             (case discrete_log_trial_mul n a b (Some order) of
                Inl err \<Rightarrow> Inl err
              | Inr k \<Rightarrow> Inr (k, g))
           else if prime_order then
             (if order < 1000000000000 then
                (case discrete_log_shanks_steps n a b (Some order) of
                   Inl err \<Rightarrow> Inl err
                 | Inr k \<Rightarrow> Inr (k, g))
              else discrete_log_pollard_rho n a b (Some order) 10 g)
           else discrete_log_pohlig_hellman n a b (Some order) g))"

subsection \<open>Higher roots\<close>

definition is_quad_residue :: "int \<Rightarrow> int \<Rightarrow> rng \<Rightarrow> error + (bool \<times> rng)" where
  "is_quad_residue a0 p g =
     (if p < 1 then Inl ValueError
      else (let a = (if a0 \<ge> p \<or> a0 < 0 then a0 mod p else a0) in
            if a < 2 \<or> p < 3 then Inr (True, g)
            else if \<not> isprime p then
              (if p mod 2 \<noteq> 0 \<and> jacobi a p = - 1 then Inr (False, g)
               else (case sqrt_mod a p False g of
                       Inl err \<Rightarrow> Inl err
                     | Inr (r, g') \<Rightarrow> Inr (r \<noteq> PNone, g')))
            else Inr (pow_mod a (nat ((p - 1) div 2)) p = 1, g)))"

lemma multiplicity_not_dvd:
  "1 < p \<Longrightarrow> n \<noteq> 0 \<Longrightarrow> \<not> p dvd n div p ^ multiplicity p n"
proof (induction p n rule: multiplicity.induct)
  case (1 p n)
  show ?case
  proof (cases "p dvd n")
    case True
    then have nz: "n div p \<noteq> 0" using 1(2,3) by auto
    have "multiplicity p n = Suc (multiplicity p (n div p))"
      using True 1(2,3) by (subst multiplicity.simps) simp
    then have "n div p ^ multiplicity p n = (n div p) div p ^ multiplicity p (n div p)"
      using 1(2) zdiv_zmult2_eq [of "p ^ multiplicity p (n div p)" n p] by simp
    then show ?thesis using 1(1) [OF _ 1(2) nz] True 1(2,3) by simp
  next
    case False
    then have "multiplicity p n = 0" by (subst multiplicity.simps) simp
    then show ?thesis using False by simp
  qed
qed

text \<open>
  \<open>_is_nthpow_residue_bign_prime_power(a, n, p, k)\<close>; \<open>p\<close> is a prime (a key of the
  factorization), so that the \<open>while\<close> loop is entered for \<open>p > 1\<close> only.
\<close>

function is_nthpow_residue_bign_prime_power :: "int \<Rightarrow> int \<Rightarrow> int \<Rightarrow> nat \<Rightarrow> bool" where
  "is_nthpow_residue_bign_prime_power a n p k =
     (if 1 < p \<and> a mod p = 0 then
        (let a1 = a mod p ^ k in
         if a1 = 0 then True
         else (let mu = multiplicity p a1 in
               if int mu mod n \<noteq> 0 then False
               else is_nthpow_residue_bign_prime_power (a1 div p ^ mu) n p (k - mu)))
      else if p \<noteq> 2 then
        (let f = p ^ (k - 1) * (p - 1) in pow_mod a (nat (f div gcd f n)) (p ^ k) = 1)
      else if n AND 1 \<noteq> 0 then True
      else (let c = trailing n in a mod 2 ^ (min (c + 2) k) = 1))"
  by pat_completeness auto
termination
proof (relation "measure (\<lambda>(a, n, p, k). if 1 < p \<and> a mod p = 0 then 1 else 0)")
  show "wf (measure (\<lambda>(a::int, n::int, p::int, k::nat). if 1 < p \<and> a mod p = 0 then 1 else 0))"
    by simp
next
  fix a n p :: int and k :: nat and a1 mu
  assume "1 < p \<and> a mod p = 0" "a1 = a mod p ^ k" "a1 \<noteq> 0" "mu = multiplicity p a1"
  then have "\<not> p dvd a1 div p ^ mu" using multiplicity_not_dvd by simp
  then have "(a1 div p ^ mu) mod p \<noteq> 0" by (simp add: dvd_eq_mod_eq_0)
  then show "((a1 div p ^ mu, n, p, k - mu), (a, n, p, k))
      \<in> measure (\<lambda>(a, n, p, k). if 1 < p \<and> a mod p = 0 then 1 else 0)"
    using \<open>1 < p \<and> a mod p = 0\<close> by simp
qed

declare is_nthpow_residue_bign_prime_power.simps [simp del]

definition is_nthpow_residue :: "int \<Rightarrow> int \<Rightarrow> int \<Rightarrow> rng \<Rightarrow> error + (bool \<times> rng)" where
  "is_nthpow_residue a0 n m g =
     (if m = 0 then Inl ZeroDivisionError
      else (let a = a0 mod m in
            if m \<le> 0 then Inl ValueError
            else if n < 0 then Inl ValueError
            else if n = 0 then (if m = 1 then Inr (False, g) else Inr (a = 1, g))
            else if a = 0 then Inr (True, g)
            else if n = 1 then Inr (True, g)
            else if n = 2 then is_quad_residue a m g
            else Inr (list_all (\<lambda>(p, e). is_nthpow_residue_bign_prime_power a n p e)
                        (factorint m), g)))"

text \<open>
  The loop \<open>while f % qx == 0: f //= qx\<close> of \<open>_nthroot_mod1\<close>; \<open>qx\<close> is a prime (a key
  of the factorization).  For \<open>f = 0\<close> the loop never exits.
\<close>

function strip_factor :: "int \<Rightarrow> int \<Rightarrow> error + int" where
  "strip_factor f qx =
     (if f = 0 then Inl NonTermination
      else if 1 < qx \<and> f mod qx = 0 then strip_factor (f div qx) qx
      else Inr f)"
  by pat_completeness auto
termination
proof (relation "measure (\<lambda>(f, qx). nat \<bar>f\<bar>)")
  show "wf (measure (\<lambda>(f::int, qx::int). nat \<bar>f\<bar>))" by simp
next
  fix f qx :: int
  assume h: "f \<noteq> 0" "1 < qx \<and> f mod qx = 0"
  then obtain k where k: "f = qx * k" by (auto simp: mod_eq_0_iff_dvd dvd_def)
  with h have k0: "k \<noteq> 0" by auto
  have "\<bar>k\<bar> * 1 < \<bar>k\<bar> * qx" using h k0 by (intro mult_strict_left_mono) auto
  then have "\<bar>k\<bar> < \<bar>qx * k\<bar>" using h by (simp add: abs_mult mult.commute)
  moreover have "f div qx = k" using h k by simp
  ultimately have "\<bar>f div qx\<bar> < \<bar>f\<bar>" using k by simp
  then show "((f div qx, qx), (f, qx)) \<in> measure (\<lambda>(f, qx). nat \<bar>f\<bar>)" by simp
qed

declare strip_factor.simps [simp del]

text \<open>The loop \<open>for _ in range(ex)\<close> of \<open>_nthroot_mod1\<close>, on the pair \<open>(r, t)\<close>.\<close>

fun nthroot_mod1_rounds :: "int \<Rightarrow> int \<Rightarrow> int \<Rightarrow> int \<Rightarrow> int \<Rightarrow> nat \<Rightarrow> int \<Rightarrow> int \<Rightarrow> int" where
  "nthroot_mod1_rounds p g qx x z 0 r t = r"
| "nthroot_mod1_rounds p g qx x z (Suc left) r t =
     nthroot_mod1_rounds p g qx x z left
       (pow_mod r (nat x) p * pow_mod g (nat ((- z * t) mod (p - 1))) p mod p) (t div qx)"

text \<open>The loop \<open>for qx, ex in factorint(q).items()\<close> of \<open>_nthroot_mod1\<close>, on \<open>r\<close>.\<close>

fun nthroot_mod1_factors ::
  "int \<Rightarrow> int \<Rightarrow> (int \<times> nat) list \<Rightarrow> int \<Rightarrow> rng \<Rightarrow> error + (int \<times> rng)" where
  "nthroot_mod1_factors p g [] r rg = Inr (r, rg)"
| "nthroot_mod1_factors p g ((qx, ex) # fs) r rg =
     (case strip_factor ((p - 1) div qx ^ ex) qx of
        Inl err \<Rightarrow> Inl err
      | Inr f \<Rightarrow>
          (case invert (- f) qx of
             Inl err \<Rightarrow> Inl err
           | Inr fi \<Rightarrow>
               (let z = f * fi;
                    x = (1 + z) div qx
                in case discrete_log p (pow_mod r (nat f) p) (pow_mod g (nat (f * qx)) p)
                          None None rg of
                     Inl err \<Rightarrow> Inl err
                   | Inr (t, rg') \<Rightarrow>
                       nthroot_mod1_factors p g fs
                         (nthroot_mod1_rounds p g qx x z ex r t) rg')))"

text \<open>The loop \<open>for _ in range(q - 1)\<close> that appends the other roots to \<open>res\<close>.\<close>

fun root_orbit :: "int \<Rightarrow> int \<Rightarrow> int \<Rightarrow> nat \<Rightarrow> int list" where
  "root_orbit p h hx 0 = []"
| "root_orbit p h hx (Suc left) = (hx * h mod p) # root_orbit p h (hx * h mod p) left"

definition nthroot_mod1 :: "int \<Rightarrow> int \<Rightarrow> int \<Rightarrow> bool \<Rightarrow> rng \<Rightarrow> error + (pyval \<times> rng)" where
  "nthroot_mod1 s q p all_roots rg =
     (case primitive_root p True of
        Inl err \<Rightarrow> Inl err
      | Inr None \<Rightarrow> Inl TypeError
      | Inr (Some g) \<Rightarrow>
          (case nthroot_mod1_factors p g (factorint q) s rg of
             Inl err \<Rightarrow> Inl err
           | Inr (r, rg') \<Rightarrow>
               (let h = pow_mod g (nat ((p - 1) div q)) p;
                    res = r # root_orbit p h r (nat (q - 1))
                in if all_roots then Inr (PList (sort res), rg')
                   else Inr (PInt (Min (set res)), rg'))))"

text \<open>
  The helpers of \<open>_nthroot_mod_composite\<close>: the derivative and the value of \<open>x ** n - a\<close>
  (the two lambdas handed to \<open>_help\<close>).
\<close>

definition diff_method :: "int \<Rightarrow> int \<Rightarrow> int \<Rightarrow> error + int" where
  "diff_method n root p =
     (case pow_mod_int root (n - 1) p of
        Inl err \<Rightarrow> Inl err
      | Inr w \<Rightarrow> Inr (w * (n mod p) mod p))"

definition expr_val :: "int \<Rightarrow> int \<Rightarrow> int \<Rightarrow> int \<Rightarrow> error + int" where
  "expr_val a n root p =
     (case pow_mod_int root n p of
        Inl err \<Rightarrow> Inl err
      | Inr w \<Rightarrow> Inr ((w - a) mod p))"

text \<open>The loop \<open>for j in range(1, e)\<close> of \<open>_help\<close>, on the pair \<open>(ppow, root)\<close>.\<close>

fun help_newton ::
  "(int \<Rightarrow> int \<Rightarrow> error + int) \<Rightarrow> int \<Rightarrow> int \<Rightarrow> nat \<Rightarrow> int \<Rightarrow> int \<Rightarrow> error + int" where
  "help_newton ev p m_inv 0 ppow root = Inr root"
| "help_newton ev p m_inv (Suc left) ppow root =
     (let ppow' = ppow * p in
      case ev root ppow' of
        Inl err \<Rightarrow> Inl err
      | Inr w \<Rightarrow> help_newton ev p m_inv left ppow' ((root - w * m_inv) mod ppow'))"

text \<open>
  The loop \<open>while k not in new_roots\<close> of \<open>_help\<close>.  Python sets are modelled by lists
  without duplicates; the sets built here do not depend on the order of iteration.
\<close>

function help_orbit :: "int \<Rightarrow> int \<Rightarrow> int \<Rightarrow> int list \<Rightarrow> int list" where
  "help_orbit new_base step k new_roots =
     (if new_base \<le> 0 \<or> k \<in> set new_roots then new_roots
      else help_orbit new_base step ((k + step) mod new_base) (k # new_roots))"
  by pat_completeness auto
termination
proof (relation "measure (\<lambda>(new_base, step, k, new_roots).
          card (insert k {0..<new_base} - set new_roots))")
  show "wf (measure (\<lambda>(new_base::int, step::int, k::int, new_roots::int list).
          card (insert k {0..<new_base} - set new_roots)))" by simp
next
  fix new_base step k :: int and new_roots :: "int list"
  assume h: "\<not> (new_base \<le> 0 \<or> k \<in> set new_roots)"
  let ?k' = "(k + step) mod new_base"
  have "?k' \<in> {0..<new_base}" using h by simp
  then have "insert ?k' {0..<new_base} - set (k # new_roots)
      \<subseteq> (insert k {0..<new_base} - set new_roots) - {k}" by auto
  moreover have "k \<in> insert k {0..<new_base} - set new_roots" using h by simp
  ultimately have "card (insert ?k' {0..<new_base} - set (k # new_roots))
      < card (insert k {0..<new_base} - set new_roots)"
    by (metis (no_types, lifting) card_Diff1_less card_mono finite_Diff finite_atLeastLessThan_int
        finite_insert le_less_trans)
  then show "((new_base, step, ?k', k # new_roots), (new_base, step, k, new_roots))
      \<in> measure (\<lambda>(new_base, step, k, new_roots).
          card (insert k {0..<new_base} - set new_roots))" by simp
qed

declare help_orbit.simps [simp del]

text \<open>The loop \<open>for k in roots_in_base\<close> of \<open>_help\<close>, which builds \<open>new_roots\<close>.\<close>

fun help_new_roots ::
  "(int \<Rightarrow> int \<Rightarrow> error + int) \<Rightarrow> int \<Rightarrow> int \<Rightarrow> int list \<Rightarrow> int list \<Rightarrow> error + int list" where
  "help_new_roots ev p new_base [] new_roots = Inr new_roots"
| "help_new_roots ev p new_base (k # ks) new_roots =
     (case ev k new_base of
        Inl err \<Rightarrow> Inl err
      | Inr w \<Rightarrow>
          help_new_roots ev p new_base ks
            (if w \<noteq> 0 then new_roots else help_orbit new_base (new_base div p) k new_roots))"

text \<open>
  The loop \<open>while new_base < pow(p, e)\<close> of \<open>_help\<close>: \<open>new_base\<close> runs through the
  powers of \<open>p\<close> below \<open>p ** e\<close>, the last argument counts the rounds left.
\<close>

fun help_bases ::
  "(int \<Rightarrow> int \<Rightarrow> error + int) \<Rightarrow> int \<Rightarrow> int \<Rightarrow> int list \<Rightarrow> nat \<Rightarrow> error + int list" where
  "help_bases ev p new_base roots_in_base 0 = Inr roots_in_base"
| "help_bases ev p new_base roots_in_base (Suc left) =
     (case help_new_roots ev p (new_base * p) roots_in_base [] of
        Inl err \<Rightarrow> Inl err
      | Inr new_roots \<Rightarrow> help_bases ev p (new_base * p) new_roots left)"

text \<open>The loop \<open>for root in prime_modulo_method(p)\<close> of \<open>_help\<close> for \<open>e > 1\<close>.\<close>

fun help_lift ::
  "(int \<Rightarrow> int \<Rightarrow> error + int) \<Rightarrow> (int \<Rightarrow> int \<Rightarrow> error + int) \<Rightarrow> int \<Rightarrow> nat \<Rightarrow>
   int list \<Rightarrow> int list \<Rightarrow> error + int list" where
  "help_lift dm ev p e [] tot_roots = Inr tot_roots"
| "help_lift dm ev p e (root # roots) tot_roots =
     (case dm root p of
        Inl err \<Rightarrow> Inl err
      | Inr diff \<Rightarrow>
          (if diff \<noteq> 0 then
             (case invert diff p of
                Inl err \<Rightarrow> Inl err
              | Inr m_inv \<Rightarrow>
                  (case help_newton ev p m_inv (e - 1) p root of
                     Inl err \<Rightarrow> Inl err
                   | Inr root' \<Rightarrow> help_lift dm ev p e roots (List.insert root' tot_roots)))
           else
             (case help_bases ev p p [root] (e - 1) of
                Inl err \<Rightarrow> Inl err
              | Inr roots_in_base \<Rightarrow>
                  help_lift dm ev p e roots (List.union tot_roots roots_in_base))))"

text \<open>
  The loop \<open>for p, e in f.items()\<close> of \<open>_help\<close>: nothing when some prime power has no
  root, and otherwise the dictionary \<open>dd\<close>.
\<close>

fun help_factors ::
  "(int \<Rightarrow> rng \<Rightarrow> error + (pyval \<times> rng)) \<Rightarrow> (int \<Rightarrow> int \<Rightarrow> error + int) \<Rightarrow>
   (int \<Rightarrow> int \<Rightarrow> error + int) \<Rightarrow> (int \<times> nat) list \<Rightarrow> rng \<Rightarrow>
   error + ((int \<times> int list) list option \<times> rng)" where
  "help_factors pmm dm ev [] g = Inr (Some [], g)"
| "help_factors pmm dm ev ((p, e) # f) g =
     (case pmm p g of
        Inl err \<Rightarrow> Inl err
      | Inr (PList roots, g') \<Rightarrow>
          (case (if e = 1 then Inr (remdups roots) else help_lift dm ev p e roots []) of
             Inl err \<Rightarrow> Inl err
           | Inr tot_roots \<Rightarrow>
               (if tot_roots = [] then Inr (None, g')
                else (case help_factors pmm dm ev f g' of
                        Inl err \<Rightarrow> Inl err
                      | Inr (None, g'') \<Rightarrow> Inr (None, g'')
                      | Inr (Some dd, g'') \<Rightarrow> Inr (Some ((p ^ e, tot_roots) # dd), g''))))
      | Inr (_, g') \<Rightarrow> Inl TypeError)"

lemma help_factors_cong [fundef_cong]:
  assumes "f = f'" "g = g'" "dm = dm'" "ev = ev'"
    and "\<And>p e h. (p, e) \<in> set f' \<Longrightarrow> pmm p h = pmm' p h"
  shows "help_factors pmm dm ev f g = help_factors pmm' dm' ev' f' g'"
  using assms(5) unfolding assms(1-4)
proof (induction f' arbitrary: g')
  case Nil
  show ?case by simp
next
  case (Cons pe f')
  obtain p e where pe: "pe = (p, e)" by (cases pe)
  have 1: "pmm p g' = pmm' p g'" using Cons.prems [of p e g'] pe by auto
  have 2: "\<And>h. help_factors pmm dm' ev' f' h = help_factors pmm' dm' ev' f' h"
  proof -
    fix h
    have "\<And>p e h. (p, e) \<in> set f' \<Longrightarrow> pmm p h = pmm' p h"
      using Cons.prems by auto
    then show "help_factors pmm dm' ev' f' h = help_factors pmm' dm' ev' f' h"
      by (rule Cons.IH)
  qed
  show ?case unfolding pe
    by (auto simp: 1 2 split: sum.splits prod.splits pyval.splits option.splits)
qed

text \<open>\<open>_help\<close> (\<open>help\<close> is a keyword of Isabelle).\<close>

definition help_fn ::
  "int \<Rightarrow> (int \<Rightarrow> rng \<Rightarrow> error + (pyval \<times> rng)) \<Rightarrow> (int \<Rightarrow> int \<Rightarrow> error + int) \<Rightarrow>
   (int \<Rightarrow> int \<Rightarrow> error + int) \<Rightarrow> rng \<Rightarrow> error + (pyval \<times> rng)" where
  "help_fn m pmm dm ev g =
     (case help_factors pmm dm ev (factorint m) g of
        Inl err \<Rightarrow> Inl err
      | Inr (None, g') \<Rightarrow> Inr (PList [], g')
      | Inr (Some dd, g') \<Rightarrow>
          (case crt_all (map fst dd) (product_lists (map snd dd)) of
             Inl err \<Rightarrow> Inl err
           | Inr rs \<Rightarrow> Inr (PList (sort (remdups rs)), g')))"

lemma help_fn_cong [fundef_cong]:
  assumes "m = m'" "g = g'" "dm = dm'" "ev = ev'"
    and "\<And>p e h. (p, e) \<in> set (factorint m') \<Longrightarrow> pmm p h = pmm' p h"
  shows "help_fn m pmm dm ev g = help_fn m' pmm' dm' ev' g'"
proof -
  have "help_factors pmm dm' ev' (factorint m') g' = help_factors pmm' dm' ev' (factorint m') g'"
    by (rule help_factors_cong [OF refl refl refl refl]) (rule assms(5))
  then show ?thesis unfolding help_fn_def assms(1-4) by simp
qed

text \<open>
  The loop \<open>while pb\<close> of \<open>nthroot_mod\<close>, which contracts the two exponents; it returns
  the final \<open>(a, pa)\<close>.
\<close>

function nthroot_contract :: "int \<Rightarrow> int \<Rightarrow> int \<Rightarrow> int \<Rightarrow> int \<Rightarrow> error + (int \<times> int)" where
  "nthroot_contract p a pa b pb =
     (if pb = 0 then Inr (a, pa)
      else (case pow_mod_int b (- (pa div pb)) p of
              Inl err \<Rightarrow> Inl err
            | Inr w \<Rightarrow> nthroot_contract p b pb (w * a mod p) (pa mod pb)))"
  by pat_completeness auto
termination
  by (relation "measure (\<lambda>(p, a, pa, b, pb). nat \<bar>pb\<bar>)") (auto simp: abs_mod_less)

declare nthroot_contract.simps [simp del]

lemma factorint_key_prime: "(p, e) \<in> set (factorint m) \<Longrightarrow> isprime p"
  by (auto simp: factorint_def)

function nthroot_mod :: "int \<Rightarrow> int \<Rightarrow> int \<Rightarrow> bool \<Rightarrow> rng \<Rightarrow> error + (pyval \<times> rng)" where
  "nthroot_mod a0 n p all_roots g =
     (if p = 0 then Inl ZeroDivisionError
      else (let a = a0 mod p in
            if n = 2 then sqrt_mod a p all_roots g
            else if \<not> isprime p then
              help_fn p (\<lambda>q h. nthroot_mod a n q True h) (diff_method n) (expr_val a n) g
            else if a mod p = 0 then Inr (PList [0], g)
            else (case is_nthpow_residue a n p g of
                    Inl err \<Rightarrow> Inl err
                  | Inr (False, g') \<Rightarrow> Inr (if all_roots then PList [] else PNone, g')
                  | Inr (True, g') \<Rightarrow>
                      (if n = 0 then Inl ZeroDivisionError
                       else if (p - 1) mod n = 0 then nthroot_mod1 a n p all_roots g'
                       else (case (if n < p - 1 then nthroot_contract p 1 (p - 1) a n
                                   else nthroot_contract p a n 1 (p - 1)) of
                               Inl err \<Rightarrow> Inl err
                             | Inr (a', pa) \<Rightarrow>
                                 (if pa = 1 then
                                    Inr (if all_roots then PList [a'] else PInt a', g')
                                  else if pa = 2 then sqrt_mod a' p all_roots g'
                                  else nthroot_mod1 a' pa p all_roots g'))))))"
  by pat_completeness auto
termination
proof (relation "measure (\<lambda>(a, n, p, all_roots, g). if isprime p then 0 else 1)")
  show "wf (measure (\<lambda>(a::int, n::int, p::int, all_roots::bool, g::rng).
          if isprime p then 0 else 1))" by simp
next
  fix a0 n p :: int and all_roots :: bool and g h :: rng and a q and e :: nat
  assume "\<not> isprime p" "(q, e) \<in> set (factorint p)"
  then show "((a, n, q, True, h), (a0, n, p, all_roots, g))
      \<in> measure (\<lambda>(a, n, p, all_roots, g). if isprime p then 0 else 1)"
    using factorint_key_prime by simp
qed

declare nthroot_mod.simps [simp del]

subsection \<open>Binomial coefficients modulo prime powers\<close>

text \<open>
  The nested functions of \<open>_binomial_mod_prime_power(n, m, p, q)\<close> take the variables
  \<open>p\<close>, \<open>q\<close> and \<open>modulo\<close> they close over as arguments (\<open>modulo\<close> and \<open>prod\<close> are
  written \<open>modulo'\<close> and \<open>prd\<close>, the names being taken).
\<close>

definition bj :: "int \<Rightarrow> int \<Rightarrow> nat \<Rightarrow> int" where
  "bj u j r =
     (let prd = foldl (\<lambda>prd i. if i \<noteq> j then prd * (u * u - i * i) else prd) u [1..int r];
          prd = foldl (\<lambda>prd i. if i \<noteq> j then prd div (j * j - i * i) else prd) prd [1..int r]
      in prd div j)"

text \<open>The loop \<open>for j in range(1, r + 1)\<close> of \<open>up_factorial\<close>, on the pair \<open>(fac, prod)\<close>.\<close>

fun up_factorial_loop ::
  "int \<Rightarrow> int \<Rightarrow> nat \<Rightarrow> int \<Rightarrow> int list \<Rightarrow> int \<Rightarrow> int \<Rightarrow> error + int" where
  "up_factorial_loop p u r modulo' [] fac prd = Inr prd"
| "up_factorial_loop p u r modulo' (j # js) fac prd =
     (let fac' = foldl (\<lambda>fac mul. fac * mul mod modulo') fac [(j - 1) * p + 1..j * p - 1]
      in case pow_mod_int fac' (bj u j r) modulo' of
           Inl err \<Rightarrow> Inl err
         | Inr w \<Rightarrow> up_factorial_loop p u r modulo' js fac' (prd * w mod modulo'))"

definition up_factorial :: "int \<Rightarrow> nat \<Rightarrow> int \<Rightarrow> error + int" where
  "up_factorial p q u =
     (let r0 = q div 2;
          special = (r0 = 1 \<and> p = 2 \<or> int (2 * r0 + 1) = p \<or> int (2 * r0 + 1) = p * p);
          r = (if special \<and> q mod 2 = 1 then r0 + 1 else r0);
          modulo' = (if special then p ^ (2 * r) else p ^ (2 * r + 1));
          dv = (if special then p ^ (2 * r - q) else p ^ ((2 * r + 1) - q))
      in case up_factorial_loop p u r modulo' [1..int r] 1 1 of
           Inl err \<Rightarrow> Inl err
         | Inr prd \<Rightarrow>
             (let prod1 =
                    (if p = 2 then
                       (let sm = foldl (\<lambda>sm j. sm + j div 2 * bj u j r) (u div 2) [1..int r]
                        in if sm mod 2 = 1 then prd * (- 1) else prd)
                     else prd);
                  prod2 = prod1 mod (modulo' div dv)
              in Inr (prod2 mod modulo')))"

text \<open>The exponent \<open>aj\<close> of \<open>up_plus_v_binom\<close>.\<close>

definition aj :: "int \<Rightarrow> int \<Rightarrow> nat \<Rightarrow> int" where
  "aj u j q =
     (let a = foldl (\<lambda>a i. if i \<noteq> j then a * (u - i) else a) u [1..int q - 1];
          a = foldl (\<lambda>a i. if i \<noteq> j then a div (j - i) else a) a [1..int q - 1]
      in a div j)"

text \<open>The loop \<open>for j in range(1, q)\<close> of \<open>up_plus_v_binom\<close>, on \<open>prod\<close>.\<close>

fun up_plus_v_binom_loop ::
  "int \<Rightarrow> nat \<Rightarrow> int \<Rightarrow> int \<Rightarrow> int \<Rightarrow> int \<Rightarrow> int list \<Rightarrow> int \<Rightarrow> error + int" where
  "up_plus_v_binom_loop p q modulo' u v dv [] prd = Inr prd"
| "up_plus_v_binom_loop p q modulo' u v dv (j # js) prd =
     (let b = foldl (\<lambda>b v'. b * v' mod modulo') dv [j * p + 1..j * p + v]
      in case pow_mod_int b (aj u j q) modulo' of
           Inl err \<Rightarrow> Inl err
         | Inr w \<Rightarrow> up_plus_v_binom_loop p q modulo' u v dv js (prd * w mod modulo'))"

definition up_plus_v_binom :: "int \<Rightarrow> nat \<Rightarrow> int \<Rightarrow> int \<Rightarrow> error + int" where
  "up_plus_v_binom p q u v =
     (let modulo' = p ^ q;
          dv = foldl (\<lambda>d i. d * i mod modulo') 1 [1..v]
      in case invert dv modulo' of
           Inl err \<Rightarrow> Inl err
         | Inr dv' \<Rightarrow> up_plus_v_binom_loop p q modulo' u v dv' [1..int q - 1] 1)"

text \<open>
  \<open>factorial(v)\<close>: the list \<open>factorials\<close> only caches the values \<open>v! % modulo\<close>, so the
  function is the pure one.
\<close>

definition factorial_mod :: "int \<Rightarrow> nat \<Rightarrow> int \<Rightarrow> int" where
  "factorial_mod p q v = foldl (\<lambda>f i. f * i mod p ^ q) 1 [1..v]"

definition factorial_p :: "int \<Rightarrow> nat \<Rightarrow> int \<Rightarrow> error + int" where
  "factorial_p p q n =
     (let u = n div p;
          v = n mod p
      in case up_factorial p q u of
           Inl err \<Rightarrow> Inl err
         | Inr uf \<Rightarrow>
             (case up_plus_v_binom p q u v of
                Inl err \<Rightarrow> Inl err
              | Inr ub \<Rightarrow> Inr (factorial_mod p q v * uf * ub mod p ^ q)))"

text \<open>
  The loop \<open>while Nj\<close> of \<open>_binomial_mod_prime_power\<close>; the state is
  \<open>(Nj, Mj, Rj, e0, carry, eq_1, j, prod)\<close> and the result \<open>(e0, eq_1, prod)\<close>.  The loop
  never exits for \<open>p \<le> 1\<close> or a negative \<open>Nj\<close>.
\<close>

function binomial_digits ::
  "int \<Rightarrow> nat \<Rightarrow> int \<Rightarrow> int \<Rightarrow> int \<Rightarrow> nat \<Rightarrow> int \<Rightarrow> nat \<Rightarrow> nat \<Rightarrow> int \<Rightarrow>
   error + (nat \<times> nat \<times> int)" where
  "binomial_digits p q Nj Mj Rj e0 carry eq_1 j prd =
     (if Nj = 0 then Inr (e0, eq_1, prd)
      else if p \<le> 1 \<or> Nj < 0 then Inl NonTermination
      else (let modulo' = p ^ q in
            case factorial_p p q (Nj mod modulo') of
              Inl err \<Rightarrow> Inl err
            | Inr numerator \<Rightarrow>
                (case factorial_p p q (Mj mod modulo') of
                   Inl err \<Rightarrow> Inl err
                 | Inr dm \<Rightarrow>
                     (case factorial_p p q (Rj mod modulo') of
                        Inl err \<Rightarrow> Inl err
                      | Inr dr \<Rightarrow>
                          (let denominator = dm * dr mod modulo';
                               carry' = (Mj mod p + Rj mod p + carry) div p;
                               e0' = e0 + nat carry';
                               eq_1' = (if j \<ge> q - 1 then eq_1 + nat carry' else eq_1)
                           in case invert denominator modulo' of
                                Inl err \<Rightarrow> Inl err
                              | Inr di \<Rightarrow>
                                  binomial_digits p q (Nj div p) (Mj div p) (Rj div p) e0' carry'
                                    eq_1' (j + 1) (prd * (numerator * di) mod modulo'))))))"
  by pat_completeness auto
termination
proof (relation "measure (\<lambda>(p, q, Nj, Mj, Rj, e0, carry, eq_1, j, prd). nat Nj)")
  show "wf (measure (\<lambda>(p::int, q::nat, Nj::int, Mj::int, Rj::int, e0::nat, carry::int,
          eq_1::nat, j::nat, prd::int). nat Nj))" by simp
next
  fix p Nj :: int
  fix q :: nat and Mj Rj :: int and e0 :: nat and carry :: int and eq_1 j :: nat and prd :: int
  fix a b c d e f g h :: int and k l :: nat
  assume "Nj \<noteq> 0" "\<not> (p \<le> 1 \<or> Nj < 0)"
  then have "Nj div p < Nj" by (simp add: int_div_less_self)
  moreover have "0 \<le> Nj div p" using \<open>\<not> (p \<le> 1 \<or> Nj < 0)\<close> by (simp add: pos_imp_zdiv_nonneg_iff)
  ultimately show "((p, q, Nj div p, Mj div p, Rj div p, k, a, l, j + 1, b),
      (p, q, Nj, Mj, Rj, e0, carry, eq_1, j, prd))
      \<in> measure (\<lambda>(p, q, Nj, Mj, Rj, e0, carry, eq_1, j, prd). nat Nj)"
    by simp
qed

declare binomial_digits.simps [simp del]

definition binomial_mod_prime_power :: "int \<Rightarrow> int \<Rightarrow> int \<Rightarrow> nat \<Rightarrow> error + int" where
  "binomial_mod_prime_power n m p q =
     (let modulo' = p ^ q in
      case binomial_digits p q n m (n - m) 0 0 0 0 1 of
        Inl err \<Rightarrow> Inl err
      | Inr (e0, eq_1, prd) \<Rightarrow>
          (let mul = pow_mod (if p = 2 \<and> q \<ge> 3 then 1 else - 1) eq_1 modulo'
           in Inr (pow_mod p e0 modulo' * mul * prd mod modulo')))"

text \<open>The list comprehension \<open>residues\<close> of \<open>binomial_mod\<close>.\<close>

fun binomial_residues :: "int \<Rightarrow> int \<Rightarrow> (int \<times> nat) list \<Rightarrow> error + int list" where
  "binomial_residues n m [] = Inr []"
| "binomial_residues n m ((p, e) # f) =
     (case binomial_mod_prime_power n m p e of
        Inl err \<Rightarrow> Inl err
      | Inr r \<Rightarrow> (case binomial_residues n m f of Inl err \<Rightarrow> Inl err | Inr rs \<Rightarrow> Inr (r # rs)))"

definition binomial_mod :: "int \<Rightarrow> int \<Rightarrow> int \<Rightarrow> error + int" where
  "binomial_mod n m k =
     (if k < 1 then Inl ValueError
      else if n < 0 \<or> m < 0 \<or> m > n then Inr 0
      else (let factorisation = factorint k in
            case binomial_residues n m factorisation of
              Inl err \<Rightarrow> Inl err
            | Inr residues \<Rightarrow>
                (case crt (map (\<lambda>(p, pw). p ^ pw) factorisation) residues of
                   None \<Rightarrow> Inl TypeError
                 | Some r \<Rightarrow> Inr r)))"

section \<open>Notions used in the statements\<close>

text \<open>
  Modelled from the spec: \<open>totient(n)\<close>, the order of the multiplicative group modulo
  \<open>n\<close> (imported from \<open>factor_\<close> by the callers of the module): the number of the
  residues in \<open>[1, n]\<close> that are coprime to \<open>n\<close>.
\<close>

definition totient :: "int \<Rightarrow> nat" where
  "totient n = length (filter (\<lambda>k. gcd k n = 1) [1..n])"

text \<open>The units modulo \<open>n\<close>, which the totient counts.\<close>

definition units :: "int \<Rightarrow> int set" where
  "units n = {k \<in> {1..n}. coprime k n}"

text \<open>The primes up to a bound.\<close>

definition primes_upto :: "int \<Rightarrow> int set" where
  "primes_upto N = {p \<in> {2..N}. isprime p}"

text \<open>The number a dictionary of prime powers stands for.\<close>

definition dict_prod :: "(int \<times> nat) list \<Rightarrow> int" where
  "dict_prod fs = prod_list (map (\<lambda>(p, k). p ^ k) fs)"

text \<open>A dictionary whose keys are primes, each key once.\<close>

definition prime_keys :: "(int \<times> nat) list \<Rightarrow> bool" where
  "prime_keys fs \<longleftrightarrow> distinct (map fst fs) \<and> (\<forall>p \<in> fst ` set fs. isprime p)"

text \<open>The group order \<open>n_order\<close> starts from: the totient, by its product formula.\<close>

definition totient_product :: "int \<Rightarrow> int" where
  "totient_product n = prod_list (map (\<lambda>(p, k). p ^ (k - 1) * (p - 1)) (factorint n))"

text \<open>\<open>is_order a n d\<close>: \<open>d\<close> is the smallest positive exponent with \<open>a ^ d \<equiv> 1 (mod n)\<close>.\<close>

definition is_order :: "int \<Rightarrow> int \<Rightarrow> nat \<Rightarrow> bool" where
  "is_order a n d \<longleftrightarrow> 0 < d \<and> a ^ d mod n = 1 \<and> (\<forall>j. 0 < j \<and> j < d \<longrightarrow> a ^ j mod n \<noteq> 1)"

section \<open>Elementary number theory\<close>

subsection \<open>Primes\<close>

lemma isprime_iff: "isprime n \<longleftrightarrow> 1 < n \<and> (\<forall>d. 2 \<le> d \<and> d < n \<longrightarrow> \<not> d dvd n)"
  by (auto simp: isprime_def list_all_iff)

lemma isprime_gt1: "isprime p \<Longrightarrow> 1 < p"
  by (simp add: isprime_iff)

lemma isprime_pos_divisor:
  assumes "isprime p" "d dvd p" "0 < d"
  shows "d = 1 \<or> d = p"
proof -
  have "d \<le> p" using assms isprime_gt1 [OF assms(1)] zdvd_imp_le [of d p] by simp
  moreover have "\<not> (2 \<le> d \<and> d < p)" using assms by (auto simp: isprime_iff)
  ultimately show ?thesis using assms(3) by arith
qed

lemma isprime_coprime:
  assumes "isprime p" "\<not> p dvd a"
  shows "coprime p a"
proof -
  have "gcd p a dvd p" "0 < gcd p a" using assms isprime_gt1 [OF assms(1)] by auto
  then have "gcd p a = 1 \<or> gcd p a = p" using isprime_pos_divisor [OF assms(1)] by blast
  moreover have "gcd p a \<noteq> p" using assms(2) by (metis gcd_dvd2)
  ultimately show ?thesis by (simp add: coprime_iff_gcd_eq_1)
qed

lemma isprime_dvd_mult:
  assumes "isprime p" "p dvd a * b"
  shows "p dvd a \<or> p dvd b"
proof (cases "p dvd a")
  case False
  then have "coprime p a" using assms(1) by (rule isprime_coprime [rotated])
  then show ?thesis using assms(2) by (simp add: coprime_dvd_mult_right_iff)
qed simp

lemma isprime_dvd_power: "isprime p \<Longrightarrow> p dvd a ^ k \<Longrightarrow> p dvd a"
  by (induction k) (auto dest: isprime_dvd_mult isprime_gt1)

lemma prime_factor_exists: "1 < (n::int) \<Longrightarrow> \<exists>p. isprime p \<and> p dvd n"
proof (induction "nat n" arbitrary: n rule: less_induct)
  case less
  show ?case
  proof (cases "isprime n")
    case True
    then show ?thesis by auto
  next
    case False
    then obtain d where d: "2 \<le> d" "d < n" "d dvd n"
      using less.prems by (auto simp: isprime_iff)
    then have "nat d < nat n" "1 < d" by auto
    then obtain p where "isprime p" "p dvd d" using less.hyps by blast
    then show ?thesis using d(3) by (meson dvd_trans)
  qed
qed



lemma totient_card: "totient n = card (units n)"
proof -
  have s: "set (filter (\<lambda>k. gcd k n = 1) [1..n]) = units n"
    by (auto simp: units_def coprime_iff_gcd_eq_1)
  have "card (set (filter (\<lambda>k. gcd k n = 1) [1..n])) = length (filter (\<lambda>k. gcd k n = 1) [1..n])"
    by (rule distinct_card) simp
  then show ?thesis unfolding totient_def s by simp
qed

lemma finite_units [simp]: "finite (units n)"
  unfolding units_def by (rule finite_subset [of _ "{1..n}"]) auto

lemma units_mult_closed:
  assumes "1 < n" "coprime a n" "k \<in> units n"
  shows "a * k mod n \<in> units n"
proof -
  have c: "coprime (a * k mod n) n" using assms by (simp add: units_def coprime_mod_left_iff)
  have "0 \<le> a * k mod n" "a * k mod n < n" using assms(1) by simp_all
  moreover have "a * k mod n \<noteq> 0"
  proof
    assume "a * k mod n = 0"
    then have "coprime 0 n" using c by simp
    then have "n dvd 1" by simp
    then show False using assms(1) by auto
  qed
  ultimately show ?thesis using c by (simp add: units_def)
qed

lemma units_mult_inj:
  assumes "1 < n" "coprime a n"
  shows "inj_on (\<lambda>k. a * k mod n) (units n)"
proof (rule inj_onI)
  fix x y assume x: "x \<in> units n" and y: "y \<in> units n" and e: "a * x mod n = a * y mod n"
  then have "n dvd a * x - a * y" by (simp add: mod_eq_dvd_iff)
  then have "n dvd (x - y) * a" by (simp add: algebra_simps)
  then have "n dvd x - y" using assms(2) coprime_dvd_mult_left_iff [of n a "x - y"]
    by (simp add: coprime_commute)
  moreover have "\<bar>x - y\<bar> < n" using x y by (auto simp: units_def)
  ultimately show "x = y" using zdvd_not_zless [of "\<bar>x - y\<bar>" n] by (auto simp: dvd_abs_iff)
qed

lemma prod_mod_eq: "finite A \<Longrightarrow> (\<Prod>i\<in>A. f i mod n) mod n = (\<Prod>i\<in>A. f i) mod (n::int)"
proof (induction A rule: finite_induct)
  case empty
  show ?case by simp
next
  case (insert x F)
  have "(f x mod n * (\<Prod>i\<in>F. f i mod n)) mod n = (f x * prod f F) mod n"
    by (rule mod_mult_cong) (simp_all add: insert.IH)
  then show ?case using insert.hyps by simp
qed

theorem euler_totient:
  assumes "1 < n" "coprime a n"
  shows "a ^ totient n mod n = 1"
proof -
  let ?U = "units n"
  let ?f = "\<lambda>k. a * k mod n"
  have "?f ` ?U \<subseteq> ?U" using units_mult_closed [OF assms] by auto
  moreover have "card (?f ` ?U) = card ?U" using units_mult_inj [OF assms] by (rule card_image)
  ultimately have img: "?f ` ?U = ?U" by (simp add: card_subset_eq)
  have "\<Prod>?U = \<Prod>(?f ` ?U)" using img by simp
  also have "\<dots> = (\<Prod>k\<in>?U. ?f k)" using units_mult_inj [OF assms] by (simp add: prod.reindex)
  finally have "(\<Prod>k\<in>?U. a * k mod n) mod n = \<Prod>?U mod n" by simp
  then have "(\<Prod>k\<in>?U. a * k) mod n = \<Prod>?U mod n" by (simp add: prod_mod_eq)
  moreover have "(\<Prod>k\<in>?U. a * k) = a ^ card ?U * \<Prod>?U" by (simp add: prod.distrib)
  ultimately have "n dvd a ^ card ?U * \<Prod>?U - \<Prod>?U" by (simp add: mod_eq_dvd_iff)
  then have "n dvd (a ^ card ?U - 1) * \<Prod>?U" by (simp add: algebra_simps)
  moreover have "coprime n (\<Prod>?U)"
    using prod_coprime_left [of ?U "\<lambda>k. k" n] by (simp add: units_def coprime_commute)
  ultimately have "n dvd a ^ card ?U - 1" by (simp add: coprime_dvd_mult_left_iff)
  then have "a ^ card ?U mod n = 1 mod n" by (simp add: mod_eq_dvd_iff)
  then show ?thesis using assms(1) by (simp add: totient_card)
qed


subsection \<open>Multiplicity and factorization\<close>

lemma multiplicity_dvd_iff:
  "1 < p \<Longrightarrow> n \<noteq> 0 \<Longrightarrow> p ^ k dvd n \<longleftrightarrow> k \<le> multiplicity p n"
proof (induction p n arbitrary: k rule: multiplicity.induct)
  case (1 p n)
  show ?case
  proof (cases "p dvd n")
    case False
    then have m: "multiplicity p n = 0" by (subst multiplicity.simps) simp
    have "\<not> p ^ k dvd n" if "0 < k"
    proof
      assume "p ^ k dvd n"
      moreover have "p dvd p ^ k" using that by (cases k) auto
      ultimately show False using False by (meson dvd_trans)
    qed
    then show ?thesis using m by (cases k) auto
  next
    case True
    then have m: "multiplicity p n = Suc (multiplicity p (n div p))"
      using 1(2,3) by (subst multiplicity.simps) simp
    have nz: "n div p \<noteq> 0" using True 1(2,3) by auto
    show ?thesis
    proof (cases k)
      case 0
      then show ?thesis by simp
    next
      case (Suc k')
      have "p ^ Suc k' dvd n \<longleftrightarrow> p * p ^ k' dvd p * (n div p)" using True by simp
      also have "\<dots> \<longleftrightarrow> p ^ k' dvd n div p" using 1(2) by simp
      also have "\<dots> \<longleftrightarrow> k' \<le> multiplicity p (n div p)"
        using 1(1) [OF _ 1(2) nz] True 1(2,3) by simp
      finally show ?thesis using m Suc by simp
    qed
  qed
qed

lemma multiplicity_eqI:
  assumes "1 < p" "n \<noteq> 0" "p ^ k dvd n" "\<not> p ^ Suc k dvd n"
  shows "multiplicity p n = k"
  using assms multiplicity_dvd_iff [of p n k] multiplicity_dvd_iff [of p n "Suc k"] by simp

lemma multiplicity_pos_iff: "1 < p \<Longrightarrow> n \<noteq> 0 \<Longrightarrow> 0 < multiplicity p n \<longleftrightarrow> p dvd n"
  using multiplicity_dvd_iff [of p n 1] by auto

lemma isprime_dvd_isprime:
  assumes "isprime p" "isprime q" "p dvd q"
  shows "p = q"
  using isprime_pos_divisor [OF assms(2,3)] isprime_gt1 [OF assms(1)] by auto

lemma isprime_power_dvd_cancel:
  assumes "isprime p" "isprime q" "p \<noteq> q" "p ^ k dvd q ^ j * m"
  shows "p ^ k dvd m"
proof -
  have "\<not> p dvd q" using assms isprime_dvd_isprime by blast
  then have "coprime p q" using assms(1) isprime_coprime by blast
  then have "coprime (p ^ k) (q ^ j)" by simp
  then show ?thesis using assms(4) by (simp add: coprime_dvd_mult_right_iff)
qed

lemma multiplicity_mult_prime:
  assumes "isprime p" "isprime q" "m \<noteq> 0"
  shows "multiplicity p (q * m) = multiplicity p m + (if p = q then 1 else 0)"
proof (cases "p = q")
  case True
  have "multiplicity q (q * m) = Suc (multiplicity q m)"
    using assms(3) isprime_gt1 [OF assms(2)] by (subst multiplicity.simps) simp
  then show ?thesis using True by simp
next
  case False
  have p1: "1 < p" and q1: "1 < q" using assms isprime_gt1 by auto
  have "p ^ k dvd q * m \<longleftrightarrow> p ^ k dvd m" for k
    using isprime_power_dvd_cancel [OF assms(1,2) False, of k 1 m] by auto
  then have "k \<le> multiplicity p (q * m) \<longleftrightarrow> k \<le> multiplicity p m" for k
    using multiplicity_dvd_iff [OF p1, of "q * m" k] multiplicity_dvd_iff [OF p1 assms(3), of k]
      assms(3) q1 by simp
  then have "multiplicity p (q * m) = multiplicity p m"
    by (meson order_antisym order_refl)
  then show ?thesis using False by simp
qed


lemma finite_primes_upto [simp]: "finite (primes_upto N)"
  unfolding primes_upto_def by (rule finite_subset [of _ "{2..N}"]) auto

lemma prime_power_product:
  "1 \<le> n \<Longrightarrow> n \<le> N \<Longrightarrow> (\<Prod>p\<in>primes_upto N. p ^ multiplicity p n) = n"
proof (induction "nat n" arbitrary: n rule: less_induct)
  case less
  show ?case
  proof (cases "n = 1")
    case True
    have "multiplicity p 1 = 0" for p by (subst multiplicity.simps) simp
    then show ?thesis using True by simp
  next
    case False
    then have "1 < n" using less.prems by simp
    then obtain q where q: "isprime q" "q dvd n" using prime_factor_exists by blast
    define m where "m = n div q"
    have n: "n = q * m" using q by (simp add: m_def)
    have q1: "1 < q" using q isprime_gt1 by blast
    have "0 < q * m" using n \<open>1 < n\<close> by simp
    then have "0 < m" using q1 by (simp add: zero_less_mult_iff)
    then have m1: "1 \<le> m" by simp
    have "m * 1 < m * q" using \<open>0 < m\<close> q1 by (intro mult_strict_left_mono) auto
    then have mn: "m < n" using n by (simp add: mult.commute)
    have "q \<le> n" using q(2) \<open>1 < n\<close> zdvd_imp_le [of q n] by simp
    then have qN: "q \<in> primes_upto N"
      using q q1 less.prems by (auto simp: primes_upto_def)
    have IH: "(\<Prod>p\<in>primes_upto N. p ^ multiplicity p m) = m"
      using less.hyps [of m] m1 mn less.prems by simp
    have "(\<Prod>p\<in>primes_upto N. p ^ multiplicity p n)
        = (\<Prod>p\<in>primes_upto N. p ^ multiplicity p m * (if p = q then q else 1))"
    proof (rule prod.cong)
      fix p assume "p \<in> primes_upto N"
      then have "isprime p" by (simp add: primes_upto_def)
      then show "p ^ multiplicity p n = p ^ multiplicity p m * (if p = q then q else 1)"
        using multiplicity_mult_prime [OF _ q(1), of p m] m1 n by auto
    qed simp
    also have "\<dots> = (\<Prod>p\<in>primes_upto N. p ^ multiplicity p m) * (\<Prod>p\<in>primes_upto N. if p = q then q else 1)"
      by (simp add: prod.distrib)
    also have "(\<Prod>p\<in>primes_upto N. if p = q then q else 1) = q"
      using qN by (simp add: prod.delta)
    finally show ?thesis using IH n by (simp add: mult.commute)
  qed
qed


lemma factorint_keys: "map fst (factorint n) = filter (\<lambda>p. isprime p \<and> p dvd n) [2..n]"
  by (simp add: factorint_def comp_def)

lemma factorint_distinct: "distinct (map fst (factorint n))"
  by (simp add: factorint_keys)

lemma factorint_sorted: "sorted (map fst (factorint n))"
  using sorted_filter [of id "[2..n]" "\<lambda>p. isprime p \<and> p dvd n"]
  by (simp add: factorint_keys)

lemma factorint_set:
  "(p, k) \<in> set (factorint n) \<longleftrightarrow> isprime p \<and> p dvd n \<and> 2 \<le> p \<and> p \<le> n \<and> k = multiplicity p n"
  by (auto simp: factorint_def)

theorem factorint_product: "1 \<le> n \<Longrightarrow> dict_prod (factorint n) = n"
proof -
  assume n: "1 \<le> n"
  let ?S = "{p \<in> {2..n}. isprime p \<and> p dvd n}"
  have fin: "finite (primes_upto n)" by simp
  have "dict_prod (factorint n) = prod_list (map (\<lambda>p. p ^ multiplicity p n) (filter (\<lambda>p. isprime p \<and> p dvd n) [2..n]))"
    by (simp add: dict_prod_def factorint_def comp_def)
  also have "\<dots> = (\<Prod>p\<in>set (filter (\<lambda>p. isprime p \<and> p dvd n) [2..n]). p ^ multiplicity p n)"
    by (rule prod.distinct_set_conv_list [symmetric]) simp
  also have "set (filter (\<lambda>p. isprime p \<and> p dvd n) [2..n]) = ?S" by auto
  also have "(\<Prod>p\<in>?S. p ^ multiplicity p n) = (\<Prod>p\<in>primes_upto n. p ^ multiplicity p n)"
  proof (rule prod.mono_neutral_left)
    show "finite (primes_upto n)" by simp
    show "?S \<subseteq> primes_upto n" by (auto simp: primes_upto_def)
    show "\<forall>p\<in>primes_upto n - ?S. p ^ multiplicity p n = 1"
    proof
      fix p assume "p \<in> primes_upto n - ?S"
      then have "isprime p" "\<not> p dvd n" by (auto simp: primes_upto_def)
      then have "multiplicity p n = 0" by (subst multiplicity.simps) simp
      then show "p ^ multiplicity p n = 1" by simp
    qed
  qed
  also have "\<dots> = n" using n by (rule prime_power_product) simp
  finally show ?thesis .
qed

subsection \<open>The totient of a prime power\<close>

lemma isprime_coprime_power_iff:
  assumes "isprime p" "0 < k"
  shows "coprime x (p ^ k) \<longleftrightarrow> \<not> p dvd x"
proof -
  have "coprime x (p ^ k) \<longleftrightarrow> coprime x p" using assms(2) by (simp add: coprime_power_right_iff)
  also have "\<dots> \<longleftrightarrow> \<not> p dvd x"
  proof
    assume c: "coprime x p"
    show "\<not> p dvd x"
    proof
      assume "p dvd x"
      then have "p dvd 1" using c coprime_common_divisor [of x p p] by simp
      then show False using isprime_gt1 [OF assms(1)] by auto
    qed
  next
    assume "\<not> p dvd x"
    then have "coprime p x" by (rule isprime_coprime [OF assms(1)])
    then show "coprime x p" by (simp add: coprime_commute)
  qed
  finally show ?thesis .
qed

lemma totient_prime_power:
  assumes "isprime p" "0 < k"
  shows "int (totient (p ^ k)) = p ^ (k - 1) * (p - 1)"
proof -
  have p1: "1 < p" using assms isprime_gt1 by blast
  let ?n = "p ^ k"
  let ?M = "(\<lambda>j. p * j) ` {1..p ^ (k - 1)}"
  have pk: "p * p ^ (k - 1) = ?n" using assms(2) by (cases k) auto
  have M: "?M = {x \<in> {1..?n}. p dvd x}"
  proof (rule set_eqI, rule iffI)
    fix x assume "x \<in> ?M"
    then obtain j where j: "1 \<le> j" "j \<le> p ^ (k - 1)" "x = p * j" by auto
    have "p * j \<le> p * p ^ (k - 1)" using j p1 by (intro mult_left_mono) auto
    moreover have "0 < p * j" using j p1 by (intro mult_pos_pos) auto
    then have "1 \<le> p * j" by simp
    ultimately show "x \<in> {x \<in> {1..?n}. p dvd x}" using j pk by auto
  next
    fix x assume "x \<in> {x \<in> {1..?n}. p dvd x}"
    then obtain j where j: "x = p * j" and x: "1 \<le> x" "x \<le> ?n" by (auto simp: dvd_def)
    have "0 < p * j" using j x by simp
    then have "0 < j" using p1 by (simp add: zero_less_mult_iff)
    moreover have "j \<le> p ^ (k - 1)"
    proof -
      have "p * j \<le> p * p ^ (k - 1)" using j x pk by simp
      then show ?thesis using p1 by simp
    qed
    ultimately show "x \<in> ?M" using j by auto
  qed
  have cM: "card ?M = nat (p ^ (k - 1))"
  proof -
    have "inj_on (\<lambda>j. p * j) {1..p ^ (k - 1)}" using p1 by (auto simp: inj_on_def)
    then have "card ?M = card {1..p ^ (k - 1)}" by (rule card_image)
    then show ?thesis by simp
  qed
  have U: "units ?n = {1..?n} - ?M"
  proof -
    have "units ?n = {x \<in> {1..?n}. \<not> p dvd x}"
      unfolding units_def using isprime_coprime_power_iff [OF assms] by blast
    also have "\<dots> = {1..?n} - {x \<in> {1..?n}. p dvd x}" by blast
    finally show ?thesis unfolding M .
  qed
  have "?M \<subseteq> {1..?n}" unfolding M by blast
  then have "card (units ?n) = card {1..?n} - card ?M"
    unfolding U by (simp add: card_Diff_subset)
  then have "int (totient ?n) = int (nat ?n - nat (p ^ (k - 1)))"
    using cM by (simp add: totient_card)
  also have "\<dots> = ?n - p ^ (k - 1)"
  proof -
    have "p ^ (k - 1) \<le> ?n" using p1 by (intro power_increasing) auto
    moreover have "0 \<le> p ^ (k - 1)" using p1 by simp
    ultimately show ?thesis by simp
  qed
  also have "\<dots> = p ^ (k - 1) * (p - 1)" using pk by (simp add: algebra_simps)
  finally show ?thesis .
qed

lemma euler_prime_power:
  assumes "isprime p" "0 < k" "\<not> p dvd a"
  shows "a ^ nat (p ^ (k - 1) * (p - 1)) mod p ^ k = 1"
proof -
  have p1: "1 < p" using assms isprime_gt1 by blast
  have "1 < p ^ k" using p1 assms(2) by (simp add: one_less_power)
  moreover have "coprime a (p ^ k)" using isprime_coprime_power_iff [OF assms(1,2)] assms(3) by simp
  ultimately have "a ^ totient (p ^ k) mod p ^ k = 1" by (rule euler_totient)
  moreover have "totient (p ^ k) = nat (p ^ (k - 1) * (p - 1))"
    using totient_prime_power [OF assms(1,2)] by (metis nat_int)
  ultimately show ?thesis by simp
qed

theorem fermat_little:
  assumes "isprime p" "\<not> p dvd a"
  shows "a ^ nat (p - 1) mod p = 1"
  using euler_prime_power [OF assms(1) _ assms(2), of 1] by simp

subsection \<open>Powers that are congruent to 1\<close>

lemma power_one_mod_mult:
  assumes "1 < (n::int)" "a ^ d mod n = 1"
  shows "a ^ (d * c) mod n = 1"
proof -
  have "a ^ (d * c) mod n = (a ^ d mod n) ^ c mod n" by (simp add: power_mult power_mod)
  then show ?thesis using assms by simp
qed

lemma power_one_mod_dvd:
  assumes "1 < (n::int)" "a ^ d mod n = 1" "d dvd e"
  shows "a ^ e mod n = 1"
  using assms power_one_mod_mult by (auto simp: dvd_def)


lemma is_order_dvd:
  assumes "1 < n" "is_order a n d" "a ^ e mod n = 1"
  shows "d dvd e"
proof -
  have d: "0 < d" "a ^ d mod n = 1" using assms(2) by (auto simp: is_order_def)
  have "a ^ e = a ^ (d * (e div d)) * a ^ (e mod d)" by (simp add: power_add [symmetric])
  then have "a ^ e mod n = (a ^ (d * (e div d)) mod n) * (a ^ (e mod d) mod n) mod n"
    by (simp add: mod_mult_eq)
  then have "a ^ (e mod d) mod n = 1"
    using power_one_mod_mult [OF assms(1) d(2), of "e div d"] assms(3) by simp
  moreover have "e mod d < d" using d by simp
  ultimately have "\<not> 0 < e mod d" using assms(2) by (auto simp: is_order_def)
  then show ?thesis by auto
qed

lemma is_order_unique: "is_order a n d \<Longrightarrow> is_order a n d' \<Longrightarrow> d = d'"
  by (metis is_order_def linorder_neqE_nat)

lemma is_order_exists:
  assumes "0 < e" "a ^ e mod n = 1"
  shows "\<exists>d. is_order a n d \<and> d \<le> e"
proof -
  let ?P = "\<lambda>d. 0 < d \<and> a ^ d mod n = 1"
  have "?P e" using assms by simp
  then have "?P (LEAST d. ?P d)" by (rule LeastI)
  moreover have "\<And>j. j < (LEAST d. ?P d) \<Longrightarrow> \<not> ?P j" by (rule not_less_Least)
  moreover have "(LEAST d. ?P d) \<le> e" using \<open>?P e\<close> by (rule Least_le)
  ultimately show ?thesis unfolding is_order_def by blast
qed

text \<open>The test of \<open>n_order\<close> and \<open>is_primitive_root\<close>: an exponent \<open>e\<close> with \<open>a ^ e \<equiv> 1\<close> is
  the order as soon as no \<open>e / q\<close>, for a prime \<open>q\<close> dividing \<open>e\<close>, is such an exponent.\<close>

lemma is_order_by_primes:
  assumes n: "1 < n" and e: "0 < e" "a ^ e mod n = 1"
    and pr: "\<And>q. isprime q \<Longrightarrow> q dvd int e \<Longrightarrow> a ^ (e div nat q) mod n \<noteq> 1"
  shows "is_order a n e"
proof -
  obtain d where d: "is_order a n d" "d \<le> e" using is_order_exists [OF e] by blast
  have "d dvd e" using is_order_dvd [OF n d(1) e(2)] .
  then obtain c where c: "e = d * c" by (auto simp: dvd_def)
  have "c = 1"
  proof (rule ccontr)
    assume "c \<noteq> 1"
    moreover have "0 < c" using c e(1) by (cases c) auto
    ultimately have "1 < int c" by simp
    then obtain q where q: "isprime q" "q dvd int c" using prime_factor_exists by blast
    have q1: "1 < q" using q isprime_gt1 by blast
    have "int (nat q) dvd int c" using q(2) q1 by simp
    then have "nat q dvd c" by (simp only: int_dvd_int_iff)
    then obtain c' where c': "c = nat q * c'" by (auto simp: dvd_def)
    have "q dvd int e" using q(2) c by simp
    then have "a ^ (e div nat q) mod n \<noteq> 1" using pr q(1) by blast
    moreover have "e div nat q = d * c'" using c c' q1 by simp
    moreover have "a ^ (d * c') mod n = 1"
      using power_one_mod_mult [OF n] d(1) by (simp add: is_order_def)
    ultimately show False by simp
  qed
  then show ?thesis using c d(1) by simp
qed

subsection \<open>Dictionaries of prime powers\<close>

lemma dict_prod_Nil [simp]: "dict_prod [] = 1"
  by (simp add: dict_prod_def)

lemma dict_prod_Cons [simp]: "dict_prod ((p, k) # fs) = p ^ k * dict_prod fs"
  by (simp add: dict_prod_def)

lemma foldl_dict_prod: "foldl (\<lambda>order (px, kx). order * px ^ kx) x fs = x * dict_prod fs"
  by (induction fs arbitrary: x) (auto simp: algebra_simps)

lemma dict_add_keys: "fst ` set (dict_add fs p k) = insert p (fst ` set fs)"
  by (induction fs p k rule: dict_add.induct) auto

lemma dict_add_distinct: "distinct (map fst fs) \<Longrightarrow> distinct (map fst (dict_add fs p k))"
proof (induction fs p k rule: dict_add.induct)
  case (2 q j fs p k)
  then show ?case using dict_add_keys [of fs p k] by (auto simp: image_iff)
qed simp

lemma dict_add_prod: "dict_prod (dict_add fs p k) = dict_prod fs * p ^ k"
  by (induction fs p k rule: dict_add.induct) (auto simp: power_add algebra_simps)


lemma prime_keys_Nil [simp]: "prime_keys []"
  by (simp add: prime_keys_def)

lemma prime_keys_dict_add: "prime_keys fs \<Longrightarrow> isprime p \<Longrightarrow> prime_keys (dict_add fs p k)"
  by (simp add: prime_keys_def dict_add_distinct dict_add_keys)

lemma prime_keys_factorint: "prime_keys (factorint n)"
  unfolding prime_keys_def using factorint_distinct [of n] by (auto simp: factorint_set)

lemma prime_keys_tl: "prime_keys (pe # fs) \<Longrightarrow> prime_keys fs"
  by (simp add: prime_keys_def)

lemma prime_dvd_dict_prod:
  assumes "isprime q" "\<forall>p \<in> fst ` set fs. isprime p" "q dvd dict_prod fs"
  shows "q \<in> fst ` set fs"
  using assms(2,3)
proof (induction fs)
  case Nil
  then show ?case using isprime_gt1 [OF assms(1)] by auto
next
  case (Cons pe fs)
  obtain p k where pe: "pe = (p, k)" by (cases pe)
  have "q dvd p ^ k \<or> q dvd dict_prod fs"
    using Cons.prems(2) isprime_dvd_mult [OF assms(1)] by (simp add: pe)
  then show ?case
  proof
    assume "q dvd p ^ k"
    then have "q dvd p" using assms(1) isprime_dvd_power by blast
    moreover have "isprime p" using Cons.prems(1) pe by simp
    ultimately have "q = p" using assms(1) isprime_dvd_isprime by blast
    then show ?thesis by (simp add: pe)
  next
    assume "q dvd dict_prod fs"
    then show ?thesis using Cons by simp
  qed
qed

lemma prime_keys_exact:
  assumes "prime_keys fs" "(p, e) \<in> set fs"
  shows "p ^ e dvd dict_prod fs \<and> \<not> p ^ Suc e dvd dict_prod fs"
  using assms
proof (induction fs)
  case Nil
  then show ?case by simp
next
  case (Cons qj fs)
  obtain q j where qj: "qj = (q, j)" by (cases qj)
  have pk: "prime_keys fs" using Cons.prems(1) prime_keys_tl by blast
  have q: "isprime q" and qn: "q \<notin> fst ` set fs" and ps: "\<forall>p \<in> fst ` set fs. isprime p"
    using Cons.prems(1) by (auto simp: prime_keys_def qj)
  show ?case
  proof (cases "(p, e) = (q, j)")
    case True
    have "\<not> q dvd dict_prod fs" using prime_dvd_dict_prod [OF q ps] qn by blast
    moreover have "q ^ Suc j dvd q ^ j * dict_prod fs \<Longrightarrow> q dvd dict_prod fs"
    proof -
      assume "q ^ Suc j dvd q ^ j * dict_prod fs"
      then have "q ^ j * q dvd q ^ j * dict_prod fs" by (simp add: mult.commute)
      then show ?thesis using isprime_gt1 [OF q] by simp
    qed
    ultimately have "q ^ j dvd q ^ j * dict_prod fs \<and> \<not> q ^ Suc j dvd q ^ j * dict_prod fs"
      by (metis dvd_triv_left)
    then show ?thesis using True by (simp add: qj)
  next
    case False
    then have m: "(p, e) \<in> set fs" using Cons.prems(2) qj by auto
    then have IH: "p ^ e dvd dict_prod fs" "\<not> p ^ Suc e dvd dict_prod fs"
      using Cons.IH pk by blast+
    have p: "isprime p" using ps m by force
    have "p \<noteq> q" using m qn by force
    then have "\<not> p ^ Suc e dvd q ^ j * dict_prod fs"
      using isprime_power_dvd_cancel [OF p q, of "Suc e" j "dict_prod fs"] IH(2) by blast
    then show ?thesis using IH(1) by (simp add: qj)
  qed
qed

lemma prime_keys_dvd:
  assumes "prime_keys fs" "\<forall>(p, k) \<in> set fs. p ^ k dvd X"
  shows "dict_prod fs dvd X"
  using assms
proof (induction fs)
  case Nil
  then show ?case by simp
next
  case (Cons qj fs)
  obtain q j where qj: "qj = (q, j)" by (cases qj)
  have pk: "prime_keys fs" using Cons.prems(1) prime_keys_tl by blast
  have q: "isprime q" and qn: "q \<notin> fst ` set fs" and ps: "\<forall>p \<in> fst ` set fs. isprime p"
    using Cons.prems(1) by (auto simp: prime_keys_def qj)
  have "\<not> q dvd dict_prod fs" using prime_dvd_dict_prod [OF q ps] qn by blast
  then have "coprime q (dict_prod fs)" using q isprime_coprime by blast
  then have "coprime (q ^ j) (dict_prod fs)" by simp
  moreover have "q ^ j dvd X" using Cons.prems(2) qj by simp
  moreover have "dict_prod fs dvd X" using Cons.IH pk Cons.prems(2) by simp
  ultimately show ?case by (simp add: qj divides_mult)
qed

subsection \<open>The group order computed by \<open>n_order\<close>\<close>

lemma factorint_exponent_pos:
  assumes "(p, k) \<in> set (factorint n)"
  shows "0 < k"
proof -
  have "isprime p" "p dvd n" "2 \<le> p" "p \<le> n" "k = multiplicity p n"
    using assms by (auto simp: factorint_set)
  then show ?thesis using multiplicity_pos_iff [of p n] by auto
qed

lemma factorint_power_dvd:
  assumes "(p, k) \<in> set (factorint n)"
  shows "p ^ k dvd n"
proof -
  have "isprime p" "p dvd n" "2 \<le> p" "p \<le> n" "k = multiplicity p n"
    using assms by (auto simp: factorint_set)
  then show ?thesis using multiplicity_dvd_iff [of p n k] by auto
qed


lemma order_factors_inner:
  assumes "prime_keys fs" "1 \<le> m"
  shows "prime_keys (foldl (\<lambda>fs (py, ky). dict_add fs py ky) fs (factorint m)) \<and>
         dict_prod (foldl (\<lambda>fs (py, ky). dict_add fs py ky) fs (factorint m)) = dict_prod fs * m"
proof -
  have "prime_keys (foldl (\<lambda>fs (py, ky). dict_add fs py ky) fs gs) \<and>
         dict_prod (foldl (\<lambda>fs (py, ky). dict_add fs py ky) fs gs) = dict_prod fs * dict_prod gs"
    if "prime_keys fs" "\<forall>p \<in> fst ` set gs. isprime p" for fs gs
    using that
  proof (induction gs arbitrary: fs)
    case Nil
    then show ?case by simp
  next
    case (Cons pk gs)
    obtain p k where pk: "pk = (p, k)" by (cases pk)
    have 1: "prime_keys (dict_add fs p k)" using Cons.prems pk by (simp add: prime_keys_dict_add)
    have 2: "\<forall>p \<in> fst ` set gs. isprime p" using Cons.prems(2) by simp
    have 3: "foldl (\<lambda>fs (py, ky). dict_add fs py ky) fs (pk # gs)
        = foldl (\<lambda>fs (py, ky). dict_add fs py ky) (dict_add fs p k) gs" by (simp add: pk)
    have 4: "dict_prod (dict_add fs p k) * dict_prod gs = dict_prod fs * dict_prod (pk # gs)"
      by (simp add: pk dict_add_prod)
    show ?case unfolding 3 using Cons.IH [OF 1 2] 4 by simp
  qed
  note * = this
  have "\<forall>p \<in> fst ` set (factorint m). isprime p"
    using prime_keys_factorint [of m] by (simp add: prime_keys_def)
  from * [OF assms(1) this] show ?thesis using factorint_product [OF assms(2)] by simp
qed

lemma order_factors_spec:
  "prime_keys (order_factors n) \<and> dict_prod (order_factors n) = totient_product n"
proof -
  let ?step = "\<lambda>fs (px, kx).
              foldl (\<lambda>fs (py, ky). dict_add fs py ky)
                    (if kx > 1 then dict_add fs px (kx - 1) else fs)
                    (factorint (px - 1))"
  have "prime_keys (foldl ?step fs gs) \<and>
        dict_prod (foldl ?step fs gs)
          = dict_prod fs * prod_list (map (\<lambda>(p, k). p ^ (k - 1) * (p - 1)) gs)"
    if "prime_keys fs" "\<forall>p \<in> fst ` set gs. isprime p" for fs gs :: "(int \<times> nat) list"
    using that
  proof (induction gs arbitrary: fs)
    case Nil
    then show ?case by simp
  next
    case (Cons pk gs)
    obtain p k where pk: "pk = (p, k)" by (cases pk)
    have p: "isprime p" using Cons.prems(2) pk by simp
    define fs1 where "fs1 = (if k > 1 then dict_add fs p (k - 1) else fs)"
    have 1: "prime_keys fs1" using Cons.prems(1) p by (simp add: fs1_def prime_keys_dict_add)
    have 2: "dict_prod fs1 = dict_prod fs * p ^ (k - 1)"
      by (cases "k > 1") (auto simp: fs1_def dict_add_prod)
    define fs2 where "fs2 = foldl (\<lambda>fs (py, ky). dict_add fs py ky) fs1 (factorint (p - 1))"
    have 3: "prime_keys fs2" "dict_prod fs2 = dict_prod fs1 * (p - 1)"
      using order_factors_inner [OF 1, of "p - 1"] isprime_gt1 [OF p] by (simp_all add: fs2_def)
    have 4: "foldl ?step fs (pk # gs) = foldl ?step fs2 gs" by (simp add: pk fs2_def fs1_def)
    have 5: "prime_keys (foldl ?step fs2 gs) \<and>
        dict_prod (foldl ?step fs2 gs)
          = dict_prod fs2 * prod_list (map (\<lambda>(p, k). p ^ (k - 1) * (p - 1)) gs)"
      using Cons.IH [OF 3(1)] Cons.prems(2) by simp
    have 6: "prod_list (map (\<lambda>(p, k). p ^ (k - 1) * (p - 1)) (pk # gs))
        = p ^ (k - 1) * (p - 1) * prod_list (map (\<lambda>(p, k). p ^ (k - 1) * (p - 1)) gs)"
      by (simp add: pk)
    have 7: "dict_prod fs2 * prod_list (map (\<lambda>(p, k). p ^ (k - 1) * (p - 1)) gs)
        = dict_prod fs * (p ^ (k - 1) * (p - 1) * prod_list (map (\<lambda>(p, k). p ^ (k - 1) * (p - 1)) gs))"
      unfolding 3(2) 2 by (simp only: mult.assoc)
    show ?case unfolding 4 6 using 5 7 by simp
  qed
  note * = this
  have "\<forall>p \<in> fst ` set (factorint n). isprime p"
    using prime_keys_factorint [of n] by (simp add: prime_keys_def)
  from * [OF prime_keys_Nil this] show ?thesis
    by (simp add: order_factors_def totient_product_def)
qed

lemma list_elem_dvd_prod_list: "(x::int) \<in> set xs \<Longrightarrow> x dvd prod_list xs"
  by (induction xs) auto

lemma totient_product_pos: "0 < totient_product n"
proof -
  have "0 < prod_list xs" if "\<forall>x \<in> set xs. 0 < x" for xs :: "int list"
    using that by (induction xs) auto
  moreover have "\<forall>x \<in> set (map (\<lambda>(p, k). p ^ (k - 1) * (p - 1)) (factorint n)). 0 < x"
  proof
    fix x assume "x \<in> set (map (\<lambda>(p, k). p ^ (k - 1) * (p - 1)) (factorint n))"
    then obtain p k where pk: "(p, k) \<in> set (factorint n)" "x = p ^ (k - 1) * (p - 1)" by auto
    then have "1 < p" using isprime_gt1 by (simp add: factorint_set)
    then have "0 < p ^ (k - 1)" "0 < p - 1" by simp_all
    then show "0 < x" unfolding pk(2) by (rule mult_pos_pos)
  qed
  ultimately show ?thesis unfolding totient_product_def by blast
qed

theorem euler_totient_product:
  assumes "1 < n" "coprime a n"
  shows "a ^ nat (totient_product n) mod n = 1"
proof -
  let ?T = "totient_product n"
  have "\<forall>(p, k) \<in> set (factorint n). p ^ k dvd a ^ nat ?T - 1"
  proof (clarify)
    fix p k assume m: "(p, k) \<in> set (factorint n)"
    have p: "isprime p" "p dvd n" using m by (auto simp: factorint_set)
    have k: "0 < k" using m by (rule factorint_exponent_pos)
    have "\<not> p dvd a"
    proof
      assume "p dvd a"
      then have "p dvd 1" using assms(2) p(2) coprime_common_divisor [of a n p] by simp
      then show False using isprime_gt1 [OF p(1)] by auto
    qed
    then have e: "a ^ nat (p ^ (k - 1) * (p - 1)) mod p ^ k = 1"
      using euler_prime_power [OF p(1) k] by blast
    have "p ^ (k - 1) * (p - 1) dvd ?T"
      unfolding totient_product_def using m by (intro list_elem_dvd_prod_list) force
    moreover have "0 \<le> p ^ (k - 1) * (p - 1)" using isprime_gt1 [OF p(1)] by simp
    ultimately have "nat (p ^ (k - 1) * (p - 1)) dvd nat ?T"
      using totient_product_pos [of n] by (simp add: nat_dvd_iff)
    moreover have "1 < p ^ k" using isprime_gt1 [OF p(1)] k by (simp add: one_less_power)
    ultimately have "a ^ nat ?T mod p ^ k = 1" using e power_one_mod_dvd by blast
    then have "a ^ nat ?T mod p ^ k = 1 mod p ^ k" using \<open>1 < p ^ k\<close> by simp
    then show "p ^ k dvd a ^ nat ?T - 1" by (simp add: mod_eq_dvd_iff)
  qed
  then have "dict_prod (factorint n) dvd a ^ nat ?T - 1"
    using prime_keys_dvd [OF prime_keys_factorint] by blast
  then have "n dvd a ^ nat ?T - 1" using factorint_product [of n] assms(1) by simp
  then have "a ^ nat ?T mod n = 1 mod n" by (simp add: mod_eq_dvd_iff)
  then show ?thesis using assms(1) by simp
qed

subsection \<open>Correctness of \<open>n_order\<close>\<close>

lemma strip_prime_spec:
  assumes "1 < p" "p ^ e dvd N" "0 < N" "a ^ nat N mod n = 1"
  shows "\<exists>s\<le>e. N = strip_prime a n p e N * p ^ s \<and> 0 < strip_prime a n p e N \<and>
           a ^ nat (strip_prime a n p e N) mod n = 1 \<and>
           (s = e \<or> a ^ nat (strip_prime a n p e N div p) mod n \<noteq> 1)"
  using assms(2-4)
proof (induction e arbitrary: N)
  case 0
  then show ?case by simp
next
  case (Suc e)
  show ?case
  proof (cases "pow_mod a (nat (N div p)) n = 1")
    case False
    then have "strip_prime a n p (Suc e) N = N" by simp
    moreover have "a ^ nat (N div p) mod n \<noteq> 1" using False by (simp add: pow_mod_def)
    ultimately show ?thesis using Suc.prems by (intro exI [of _ 0]) simp
  next
    case True
    define N1 where "N1 = N div p"
    have pd: "p dvd N" using Suc.prems(1) by (metis dvd_mult_left power_Suc)
    then have N: "N = p * N1" by (simp add: N1_def)
    have "p * p ^ e dvd p * N1" using Suc.prems(1) N by simp
    then have 1: "p ^ e dvd N1" using assms(1) by simp
    have "0 < p * N1" using Suc.prems(2) N by simp
    then have 2: "0 < N1" using assms(1) by (simp add: zero_less_mult_iff)
    have 3: "a ^ nat N1 mod n = 1" using True by (simp add: pow_mod_def N1_def)
    have r: "strip_prime a n p (Suc e) N = strip_prime a n p e N1"
      using True by (simp add: N1_def)
    obtain s where s: "s \<le> e" "N1 = strip_prime a n p e N1 * p ^ s"
      "0 < strip_prime a n p e N1" "a ^ nat (strip_prime a n p e N1) mod n = 1"
      "s = e \<or> a ^ nat (strip_prime a n p e N1 div p) mod n \<noteq> 1"
      using Suc.IH [OF 1 2 3] by blast
    have "N = strip_prime a n p e N1 * p ^ Suc s" using N s(2) by (simp add: mult.commute mult.left_commute)
    then show ?thesis unfolding r using s by (intro exI [of _ "Suc s"]) auto
  qed
qed

lemma power_nat_mult_one:
  assumes "1 < (n::int)" "0 \<le> x" "0 \<le> y" "a ^ nat x mod n = 1"
  shows "a ^ nat (x * y) mod n = 1"
proof -
  have "nat (x * y) = nat x * nat y" using assms(2) by (simp add: nat_mult_distrib)
  then show ?thesis using power_one_mod_mult [OF assms(1,4)] by simp
qed

lemma strip_all_spec:
  assumes n: "1 < n"
    and "distinct (map fst fs)"
    and "\<forall>(p, e) \<in> set fs. isprime p \<and> p ^ e dvd N \<and> \<not> p ^ Suc e dvd N"
    and "0 < N" "a ^ nat N mod n = 1"
  shows "\<exists>N' m. foldl (\<lambda>order (p, e). strip_prime a n p e order) N fs = N' \<and> 0 < N' \<and>
           a ^ nat N' mod n = 1 \<and> N = N' * m \<and>
           (\<forall>q. isprime q \<and> q dvd m \<longrightarrow> q \<in> fst ` set fs) \<and>
           (\<forall>(p, e) \<in> set fs. \<not> p dvd N' \<or> a ^ nat (N' div p) mod n \<noteq> 1)"
  using assms(2-5)
proof (induction fs arbitrary: N)
  case Nil
  have "\<not> q dvd 1" if "isprime q" for q using isprime_gt1 [OF that] by auto
  then show ?case using Nil by (intro exI [of _ N] exI [of _ "1::int"]) auto
next
  case (Cons pe fs)
  obtain p e where pe: "pe = (p, e)" by (cases pe)
  have p: "isprime p" and pd: "p ^ e dvd N" and pn: "\<not> p ^ Suc e dvd N"
    using Cons.prems(2) pe by auto
  have p1: "1 < p" using p isprime_gt1 by blast
  define N1 where "N1 = strip_prime a n p e N"
  obtain s where s: "s \<le> e" "N = N1 * p ^ s" "0 < N1" "a ^ nat N1 mod n = 1"
    "s = e \<or> a ^ nat (N1 div p) mod n \<noteq> 1"
    using strip_prime_spec [OF p1 pd Cons.prems(3,4)] unfolding N1_def by blast
  have tl: "\<forall>(q, f) \<in> set fs. isprime q \<and> q ^ f dvd N1 \<and> \<not> q ^ Suc f dvd N1"
  proof (clarify)
    fix q f assume m: "(q, f) \<in> set fs"
    have q: "isprime q" "q ^ f dvd N" "\<not> q ^ Suc f dvd N" using Cons.prems(2) m by auto
    have "q \<noteq> p" using Cons.prems(1) m pe by force
    have "q ^ f dvd p ^ s * N1" using q(2) s(2) by (simp add: mult.commute)
    then have "q ^ f dvd N1" using isprime_power_dvd_cancel [OF q(1) p \<open>q \<noteq> p\<close>] by blast
    moreover have "\<not> q ^ Suc f dvd N1" using q(3) s(2) by (metis dvd_mult2)
    ultimately show "isprime q \<and> q ^ f dvd N1 \<and> \<not> q ^ Suc f dvd N1" using q(1) by blast
  qed
  have d: "distinct (map fst fs)" using Cons.prems(1) by simp
  obtain N' m where IH: "foldl (\<lambda>order (p, e). strip_prime a n p e order) N1 fs = N'" "0 < N'"
    "a ^ nat N' mod n = 1" "N1 = N' * m"
    "\<forall>q. isprime q \<and> q dvd m \<longrightarrow> q \<in> fst ` set fs"
    "\<forall>(p, e) \<in> set fs. \<not> p dvd N' \<or> a ^ nat (N' div p) mod n \<noteq> 1"
    using Cons.IH [OF d tl s(3,4)] by blast
  have m0: "0 < m" using IH(2,4) s(3) by (simp add: zero_less_mult_iff)
  have pm: "\<not> p dvd m"
  proof
    assume "p dvd m"
    then have "p \<in> fst ` set fs" using IH(5) p by blast
    then show False using Cons.prems(1) pe by simp
  qed
  have good: "\<not> p dvd N' \<or> a ^ nat (N' div p) mod n \<noteq> 1"
  proof (cases "s = e")
    case True
    have "\<not> p dvd N1"
    proof
      assume "p dvd N1"
      then have "p * p ^ e dvd N1 * p ^ e" by (simp add: mult.commute)
      then show False using pn s(2) True by simp
    qed
    then have "\<not> p dvd N'" using IH(4) by auto
    then show ?thesis ..
  next
    case False
    then have ne: "a ^ nat (N1 div p) mod n \<noteq> 1" using s(5) by blast
    show ?thesis
    proof (rule ccontr)
      assume "\<not> ?thesis"
      then have c: "p dvd N'" "a ^ nat (N' div p) mod n = 1" by auto
      obtain c' where c': "N' = p * c'" using c(1) by (auto simp: dvd_def)
      have "N1 = p * (c' * m)" using IH(4) c' by simp
      then have "N1 div p = c' * m" using p1 by simp
      moreover have "N' div p = c'" using c' p1 by simp
      ultimately have "N1 div p = (N' div p) * m" by simp
      moreover have "0 \<le> N' div p" using IH(2) p1 by (simp add: pos_imp_zdiv_nonneg_iff)
      ultimately have "a ^ nat (N1 div p) mod n = 1"
        using power_nat_mult_one [OF n _ _ c(2), of m] m0 by simp
      then show False using ne by simp
    qed
  qed
  show ?case
  proof (rule exI [of _ N'], rule exI [of _ "m * p ^ s"], intro conjI)
    show "foldl (\<lambda>order (p, e). strip_prime a n p e order) N (pe # fs) = N'"
      using IH(1) by (simp add: pe N1_def)
    show "N = N' * (m * p ^ s)" using s(2) IH(4) by (simp add: mult.assoc)
    show "\<forall>q. isprime q \<and> q dvd m * p ^ s \<longrightarrow> q \<in> fst ` set (pe # fs)"
    proof (intro allI impI)
      fix q assume "isprime q \<and> q dvd m * p ^ s"
      then have q: "isprime q" "q dvd m * p ^ s" by simp_all
      then have "q dvd m \<or> q dvd p ^ s" using isprime_dvd_mult by blast
      then show "q \<in> fst ` set (pe # fs)"
      proof
        assume "q dvd m"
        then show ?thesis using IH(5) q(1) by auto
      next
        assume "q dvd p ^ s"
        then have "q dvd p" using q(1) isprime_dvd_power by blast
        then have "q = p" using q(1) p isprime_dvd_isprime by blast
        then show ?thesis by (simp add: pe)
      qed
    qed
    show "\<forall>(p, e) \<in> set (pe # fs). \<not> p dvd N' \<or> a ^ nat (N' div p) mod n \<noteq> 1"
      using good IH(6) by (simp add: pe)
  qed (use IH in simp_all)
qed

theorem n_order_correct:
  assumes "1 < n" "coprime a n"
  shows "\<exists>k. n_order a n = Inr (int k) \<and> is_order a n k"
proof (cases "a mod n = 1")
  case True
  then have "n_order a n = Inr (int 1)" using assms(1) by (simp add: n_order_def)
  moreover have "is_order a n 1" using True by (simp add: is_order_def)
  ultimately show ?thesis by blast
next
  case False
  define b where "b = a mod n"
  have cb: "coprime b n" using assms by (simp add: b_def coprime_mod_left_iff)
  define fs where "fs = order_factors n"
  define N where "N = dict_prod fs"
  have pk: "prime_keys fs" and N: "N = totient_product n"
    using order_factors_spec [of n] by (simp_all add: fs_def N_def)
  have Npos: "0 < N" using N totient_product_pos by simp
  have bN: "b ^ nat N mod n = 1" using euler_totient_product [OF assms(1) cb] N by simp
  have ex: "\<forall>(p, e) \<in> set fs. isprime p \<and> p ^ e dvd N \<and> \<not> p ^ Suc e dvd N"
  proof (clarify)
    fix p e assume m: "(p, e) \<in> set fs"
    have "isprime p" using pk m by (force simp: prime_keys_def)
    then show "isprime p \<and> p ^ e dvd N \<and> \<not> p ^ Suc e dvd N"
      using prime_keys_exact [OF pk m] by (simp add: N_def)
  qed
  have d: "distinct (map fst fs)" using pk by (simp add: prime_keys_def)
  obtain N' m where S: "foldl (\<lambda>order (p, e). strip_prime b n p e order) N fs = N'" "0 < N'"
    "b ^ nat N' mod n = 1" "N = N' * m"
    "\<forall>(p, e) \<in> set fs. \<not> p dvd N' \<or> b ^ nat (N' div p) mod n \<noteq> 1"
    using strip_all_spec [OF assms(1) d ex Npos bN] by blast
  have r: "n_order a n = Inr N'"
  proof -
    have "gcd b n = 1" using cb by (simp add: coprime_iff_gcd_eq_1)
    then show ?thesis
      using assms(1) False S(1)
      by (simp add: n_order_def b_def [symmetric] Let_def fs_def [symmetric] foldl_dict_prod
          N_def [symmetric])
  qed
  have "is_order b n (nat N')"
  proof (rule is_order_by_primes [OF assms(1)])
    show "0 < nat N'" using S(2) by simp
    show "b ^ nat N' mod n = 1" by (rule S(3))
    fix q assume q: "isprime q" "q dvd int (nat N')"
    then have qN': "q dvd N'" using S(2) by simp
    then have "q dvd dict_prod fs" using S(4) by (simp add: N_def [symmetric])
    moreover have "\<forall>p \<in> fst ` set fs. isprime p" using pk by (simp add: prime_keys_def)
    ultimately have "q \<in> fst ` set fs" using prime_dvd_dict_prod [OF q(1)] by blast
    then obtain e where "(q, e) \<in> set fs" by force
    then have "b ^ nat (N' div q) mod n \<noteq> 1" using S(5) qN' by blast
    moreover have "nat (N' div q) = nat N' div nat q"
      using S(2) isprime_gt1 [OF q(1)] by (simp add: nat_div_distrib)
    ultimately show "b ^ (nat N' div nat q) mod n \<noteq> 1" by simp
  qed
  then have "is_order a n (nat N')" by (simp add: is_order_def b_def power_mod)
  moreover have "N' = int (nat N')" using S(2) by simp
  ultimately show ?thesis using r by metis
qed

section \<open>Verified properties\<close>

subsection \<open>Evaluation of the primality test\<close>

lemma isprime_7: "isprime 7"
  by code_simp

lemma isprime_19: "isprime 19"
  by code_simp

lemma isprime_41: "isprime 41"
  by code_simp

subsection \<open>Multiplicative order\<close>

text \<open>
  Claim C2.  For \<open>n > 1\<close> and \<open>gcd(a, n) = 1\<close>, \<open>n_order(a, n)\<close> returns the smallest
  \<open>k > 0\<close> with \<open>a ** k \<equiv> 1 (mod n)\<close>; when \<open>n\<close> is a prime, this \<open>k\<close> divides \<open>n - 1\<close>.
\<close>

theorem n_order_smallest:
  assumes "1 < n" "gcd a n = 1"
  shows "\<exists>k. n_order a n = Inr (int k) \<and> is_order a n k \<and> (isprime n \<longrightarrow> int k dvd n - 1)"
proof -
  have c: "coprime a n" using assms(2) by (simp add: coprime_iff_gcd_eq_1)
  obtain k where k: "n_order a n = Inr (int k)" "is_order a n k"
    using n_order_correct [OF assms(1) c] by blast
  have "int k dvd n - 1" if p: "isprime n"
  proof -
    have "\<not> n dvd a"
    proof
      assume "n dvd a"
      then have "n dvd 1" using c coprime_common_divisor [of a n n] by simp
      then show False using assms(1) by auto
    qed
    then have "a ^ nat (n - 1) mod n = 1" using fermat_little [OF p] by blast
    then have "k dvd nat (n - 1)" using is_order_dvd [OF assms(1) k(2)] by blast
    then have "int k dvd int (nat (n - 1))" by (simp only: int_dvd_int_iff)
    then show ?thesis using assms(1) by simp
  qed
  then show ?thesis using k by blast
qed

theorem n_order_smallest_witness:
  "(1::int) < 7 \<and> gcd (3::int) 7 = 1 \<and> n_order 3 7 = Inr 6 \<and> is_order 3 7 6 \<and>
   isprime 7 \<and> (6::int) dvd 7 - 1"
proof -
  have 1: "n_order 3 7 = Inr 6" by code_simp
  have g: "gcd (3::int) 7 = 1" by code_simp
  obtain k where k: "n_order 3 7 = Inr (int k)" "is_order 3 7 k"
    using n_order_smallest [of 7 3] g by auto
  then have "k = 6" using 1 by simp
  then show ?thesis using 1 k isprime_7 g by simp
qed

subsection \<open>Discrete logarithms by trial multiplication\<close>

lemma trial_mul_loop_least:
  assumes "x = b ^ i mod n" "\<exists>j. i \<le> j \<and> j < i + left \<and> b ^ j mod n = a"
  shows "\<exists>r. trial_mul_loop n a b x (int i) left = Inr (int r) \<and> i \<le> r \<and> r < i + left \<and>
           b ^ r mod n = a \<and> (\<forall>j. i \<le> j \<and> j < r \<longrightarrow> b ^ j mod n \<noteq> a)"
  using assms
proof (induction left arbitrary: x i)
  case 0
  then obtain j where "i \<le> j" "j < i + 0" by blast
  then show ?case by simp
next
  case (Suc left)
  show ?case
  proof (cases "x = a")
    case True
    then show ?thesis using Suc.prems(1) by (intro exI [of _ i]) auto
  next
    case False
    obtain j where j: "i \<le> j" "j < i + Suc left" "b ^ j mod n = a" using Suc.prems(2) by blast
    have "j \<noteq> i" using False j(3) Suc.prems(1) by auto
    then have "Suc i \<le> j \<and> j < Suc i + left \<and> b ^ j mod n = a" using j by simp
    then have ex: "\<exists>j. Suc i \<le> j \<and> j < Suc i + left \<and> b ^ j mod n = a" ..
    have x': "x * b mod n = b ^ Suc i mod n"
      unfolding Suc.prems(1) by (simp add: mod_mult_right_eq mult.commute)
    obtain r where r: "trial_mul_loop n a b (x * b mod n) (int (Suc i)) left = Inr (int r)"
      "Suc i \<le> r" "r < Suc i + left" "b ^ r mod n = a"
      "\<forall>j. Suc i \<le> j \<and> j < r \<longrightarrow> b ^ j mod n \<noteq> a"
      using Suc.IH [OF x' ex] by blast
    have "trial_mul_loop n a b x (int i) (Suc left) = Inr (int r)"
      using False r(1) by (simp add: add.commute)
    moreover have "\<forall>j. i \<le> j \<and> j < r \<longrightarrow> b ^ j mod n \<noteq> a"
    proof (intro allI impI)
      fix j' assume h: "i \<le> j' \<and> j' < r"
      show "b ^ j' mod n \<noteq> a"
      proof (cases "j' = i")
        case True
        then show ?thesis using False Suc.prems(1) by simp
      next
        case False
        then show ?thesis using h r(5) by auto
      qed
    qed
    ultimately show ?thesis using r(2,3,4) by (intro exI [of _ r]) auto
  qed
qed

lemma discrete_log_trial:
  assumes "1 < n" "coprime b n" "is_order b n d" "d < 1000" "a mod n = b ^ k mod n"
  shows "\<exists>i. discrete_log n a b None None g = Inr (int i, g) \<and>
           discrete_log_trial_mul n a b (Some (int d)) = Inr (int i) \<and>
           b ^ i mod n = a mod n \<and> (\<forall>j<i. b ^ j mod n \<noteq> a mod n)"
proof -
  obtain d' where d': "n_order b n = Inr (int d')" "is_order b n d'"
    using n_order_correct [OF assms(1)] assms(2) by blast
  have dd: "d' = d" using d'(2) assms(3) by (rule is_order_unique)
  have d: "0 < d" "b ^ d mod n = 1" using assms(3) by (auto simp: is_order_def)
  let ?b = "b mod n"
  have pw: "?b ^ j mod n = b ^ j mod n" for j by (simp add: power_mod)
  have "b ^ k = b ^ (d * (k div d)) * b ^ (k mod d)" by (simp add: power_add [symmetric])
  then have "b ^ k mod n = (b ^ (d * (k div d)) mod n) * (b ^ (k mod d) mod n) mod n"
    by (simp add: mod_mult_eq)
  then have "b ^ (k mod d) mod n = a mod n"
    using power_one_mod_mult [OF assms(1) d(2), of "k div d"] assms(5) by simp
  moreover have "k mod d < d" using d(1) by simp
  ultimately have ex: "\<exists>j. 0 \<le> j \<and> j < 0 + d \<and> ?b ^ j mod n = a mod n"
    using pw by (intro exI [of _ "k mod d"]) simp
  have x: "1 = ?b ^ 0 mod n" using assms(1) by simp
  obtain r where r: "trial_mul_loop n (a mod n) ?b 1 (int 0) d = Inr (int r)" "r < 0 + d"
    "?b ^ r mod n = a mod n" "\<forall>j. 0 \<le> j \<and> j < r \<longrightarrow> ?b ^ j mod n \<noteq> a mod n"
    using trial_mul_loop_least [OF x ex] by blast
  have t: "discrete_log_trial_mul n a b (Some (int d)) = Inr (int r)"
    using r(1) assms(1) by (simp add: discrete_log_trial_mul_def)
  have "discrete_log n a b None None g = Inr (int r, g)"
    using d'(1) dd assms(4) t by (simp add: discrete_log_def)
  then show ?thesis using t r(3,4) pw by (intro exI [of _ r]) auto
qed

text \<open>
  Claim C3.  \<open>discrete_log(41, 15, 7)\<close> is 3, and \<open>7 ** 3 \<equiv> 15 (mod 41)\<close>.  More
  generally, for \<open>n > 1\<close>, a base \<open>b\<close> coprime to \<open>n\<close> whose multiplicative order \<open>d\<close>
  modulo \<open>n\<close> is less than 1000, and \<open>a \<equiv> b ** k (mod n)\<close> for some \<open>k \<ge> 0\<close>,
  \<open>discrete_log(n, a, b)\<close> returns what the trial multiplication returns for the order
  \<open>d\<close>, which is the least exponent \<open>i\<close> with \<open>b ** i \<equiv> a (mod n)\<close>; the random source
  is left untouched.
\<close>

theorem discrete_log_small_order:
  "discrete_log 41 15 7 None None g = Inr (3, g) \<and> (7::int) ^ 3 mod 41 = 15 mod 41 \<and>
   (1 < n \<and> gcd b n = 1 \<and> is_order b n d \<and> d < 1000 \<and> a mod n = b ^ k mod n \<longrightarrow>
    (\<exists>i. discrete_log n a b None None g = Inr (int i, g) \<and>
         discrete_log_trial_mul n a b (Some (int d)) = Inr (int i) \<and>
         b ^ i mod n = a mod n \<and> (\<forall>j<i. b ^ j mod n \<noteq> a mod n)))"
proof -
  have 1: "discrete_log 41 15 7 None None g = Inr (3, g)" by code_simp
  have 2: "(7::int) ^ 3 mod 41 = 15 mod 41" by simp
  have 3: "\<exists>i. discrete_log n a b None None g = Inr (int i, g) \<and>
         discrete_log_trial_mul n a b (Some (int d)) = Inr (int i) \<and>
         b ^ i mod n = a mod n \<and> (\<forall>j<i. b ^ j mod n \<noteq> a mod n)"
    if "1 < n \<and> gcd b n = 1 \<and> is_order b n d \<and> d < 1000 \<and> a mod n = b ^ k mod n"
  proof -
    have "coprime b n" using that by (simp add: coprime_iff_gcd_eq_1)
    then show ?thesis using discrete_log_trial [of n b d a k g] that by blast
  qed
  show ?thesis using 1 2 3 by blast
qed

theorem discrete_log_small_order_witness:
  "(1::int) < 41 \<and> gcd (7::int) 41 = 1 \<and> is_order 7 41 40 \<and> (40::nat) < 1000 \<and>
   (15::int) mod 41 = 7 ^ 3 mod 41 \<and> discrete_log 41 15 7 None None [] = Inr (3, []) \<and>
   discrete_log_trial_mul 41 15 7 (Some 40) = Inr 3"
proof -
  have 1: "n_order 7 41 = Inr 40" by code_simp
  have g: "gcd (7::int) 41 = 1" by code_simp
  have c: "coprime (7::int) 41" using g by (simp add: coprime_iff_gcd_eq_1)
  obtain k where k: "n_order 7 41 = Inr (int k)" "is_order 7 41 k"
    using n_order_correct [of 41 7] c by auto
  then have o: "is_order 7 41 40" using 1 by simp
  have h: "(1::int) < 41 \<and> gcd (7::int) 41 = 1 \<and> is_order 7 41 40 \<and> (40::nat) < 1000 \<and>
      (15::int) mod 41 = 7 ^ 3 mod 41" using o g by simp
  obtain i where i: "discrete_log 41 15 7 None None [] = Inr (int i, [])"
    "discrete_log_trial_mul 41 15 7 (Some (int 40)) = Inr (int i)"
    using discrete_log_small_order [of "[]" 41 7 40 15 3] h by blast
  have "discrete_log 41 15 7 None None [] = Inr (3, [])"
    using discrete_log_small_order [of "[]"] by blast
  then have "int i = 3" using i(1) by simp
  then show ?thesis using h i by simp
qed

subsection \<open>Higher roots\<close>

text \<open>
  Claim C4.  \<open>nthroot_mod(11, 4, 19)\<close> is 8 and \<open>nthroot_mod(11, 4, 19, True)\<close> is
  \<open>[8, 11]\<close>, whatever the state of the random source (which is left untouched), and
  every root \<open>r\<close> of the list returned satisfies \<open>r ** 4 \<equiv> 11 (mod 19)\<close>.
\<close>

theorem nthroot_mod_11_4_19:
  "nthroot_mod 11 4 19 False g = Inr (PInt 8, g) \<and>
   nthroot_mod 11 4 19 True g = Inr (PList [8, 11], g) \<and>
   (\<forall>rs g'. nthroot_mod 11 4 19 True g = Inr (PList rs, g') \<longrightarrow>
      (\<forall>r \<in> set rs. r ^ 4 mod 19 = 11 mod 19))"
proof -
  have 1: "nthroot_mod 11 4 19 False g = Inr (PInt 8, g)" by code_simp
  have 2: "nthroot_mod 11 4 19 True g = Inr (PList [8, 11], g)" by code_simp
  show ?thesis unfolding 1 2 by simp
qed

theorem nthroot_mod_11_4_19_witness:
  "nthroot_mod 11 4 19 True [] = Inr (PList [8, 11], []) \<and>
   (8 :: int) ^ 4 mod 19 = 11 mod 19 \<and> (11 :: int) ^ 4 mod 19 = 11 mod 19"
  using nthroot_mod_11_4_19 [of "[]"] by simp

text \<open>
  Claim C9.  For \<open>n > 2\<close>, a prime \<open>p\<close> and \<open>a \<equiv> 0 (mod p)\<close>, \<open>nthroot_mod(a, n, p, all_roots)\<close>
  returns the one-element list \<open>[0]\<close> for both values of \<open>all_roots\<close>: also in
  single-root mode the result is the list, not the bare integer 0.
\<close>

theorem nthroot_mod_zero_residue:
  "isprime p \<Longrightarrow> 2 < n \<Longrightarrow> a mod p = 0 \<Longrightarrow>
   nthroot_mod a n p all_roots g = Inr (PList [0], g)"
  by (subst nthroot_mod.simps) (auto simp: isprime_def)

theorem nthroot_mod_zero_residue_witness:
  "isprime 7 \<and> (2 :: int) < 3 \<and> (14 :: int) mod 7 = 0 \<and>
   nthroot_mod 14 3 7 False [] = Inr (PList [0], []) \<and>
   nthroot_mod 14 3 7 True [] = Inr (PList [0], [])"
  using nthroot_mod_zero_residue [OF isprime_7, of 3 14 False "[]"]
    nthroot_mod_zero_residue [OF isprime_7, of 3 14 True "[]"] isprime_7
  by simp

end
